theory Spec2Isabelle
  imports Complex_Main "HOL-Library.Multiset"
begin

section \<open>The nice-percentage allocator of history\_media\_poll.cpp\<close>

text \<open>
  The C++ type \<open>int\<close> is modelled by \<open>int\<close>. Signed overflow and division by zero are
  undefined in C++; the places of \<open>CountNicePercent\<close> where an input can cause them
  (\<open>votes * 100\<close>, \<open>left -= percent\<close>, \<open>/ total\<close>) are error branches of the model, so
  a result \<open>Inr\<close> is a run of the code without undefined behaviour (the remaining
  operations cannot overflow, see \<open>fill_items_no_overflow\<close>). \<open>Expects\<close> and \<open>Assert\<close>
  terminate the program when their condition fails. The parameters \<open>votes\<close> and
  \<open>total\<close> stand for values of type \<open>int\<close>.
\<close>

datatype error = ExpectsFailed | AssertFailed | DivisionByZero | IntOverflow | IndexOutOfRange

definition INT_MAX :: int where
  "INT_MAX = 2147483647"

definition INT_MIN :: int where
  "INT_MIN = - 2147483648"

definition fits_int :: "int \<Rightarrow> bool" where
  "fits_int x = (INT_MIN \<le> x \<and> x \<le> INT_MAX)"

text \<open>Division of C++ integers truncates towards zero.\<close>

definition trunc_div :: "int \<Rightarrow> int \<Rightarrow> int" where
  "trunc_div a b = sgn a * sgn b * (\<bar>a\<bar> div \<bar>b\<bar>)"

record PercentCounterItem =
  index :: nat
  percent :: int
  remainder :: int

text \<open>\<open>PercentCounterItem::operator<\<close>: larger remainder first, then smaller percent.\<close>

definition item_less :: "PercentCounterItem \<Rightarrow> PercentCounterItem \<Rightarrow> bool" where
  "item_less a b =
     (if remainder a > remainder b then True
      else if remainder a < remainder b then False
      else percent a < percent b)"

text \<open>
  The inner loop of \<open>AdjustPercentCount\<close>: from \<open>j\<close> on, the first position whose
  percent or remainder differs from those of \<open>item\<close>, or \<open>count\<close>. Both loop conditions of
  the source test \<open>j != count\<close> and \<open>i != j\<close>, starting from indices below these bounds; the
  model writes \<open><\<close>.
\<close>

function group_end :: "PercentCounterItem list \<Rightarrow> PercentCounterItem \<Rightarrow> nat \<Rightarrow> nat" where
  "group_end items item j =
     (if j < length items
      then (if percent (items ! j) \<noteq> percent item \<or> remainder (items ! j) \<noteq> remainder item
            then j
            else group_end items item (j + 1))
      else j)"
  by pat_completeness auto
termination
  by (relation "measure (\<lambda>(items, item, j). length items - j)") auto

declare group_end.simps [simp del]

text \<open>The loop \<open>for (; i != j; ++i) ++items[i].percent\<close>.\<close>

function increment_range :: "PercentCounterItem list \<Rightarrow> nat \<Rightarrow> nat \<Rightarrow> PercentCounterItem list" where
  "increment_range items i j =
     (if i < j \<and> i < length items
      then increment_range (items[i := (items ! i)\<lparr>percent := percent (items ! i) + 1\<rparr>]) (i + 1) j
      else items)"
  by pat_completeness auto
termination
  by (relation "measure (\<lambda>(items, i, j). j - i)") auto

declare increment_range.simps [simp del]

lemma group_end_ge: "j \<le> group_end items item j"
proof (induction items item j rule: group_end.induct)
  case (1 items item j)
  then show ?case
    by (subst group_end.simps) auto
qed

lemma group_end_le: "j \<le> length items \<Longrightarrow> group_end items item j \<le> length items"
proof (induction items item j rule: group_end.induct)
  case (1 items item j)
  then show ?case
    by (subst group_end.simps) auto
qed

lemma length_increment_range: "length (increment_range items i j) = length items"
proof (induction items i j rule: increment_range.induct)
  case (1 items i j)
  then show ?case
    by (subst increment_range.simps) auto
qed

text \<open>
  The outer loop of \<open>AdjustPercentCount\<close>, from position \<open>i\<close> with \<open>left\<close> points to
  give away.
\<close>

function adjust_loop :: "PercentCounterItem list \<Rightarrow> nat \<Rightarrow> int \<Rightarrow> PercentCounterItem list" where
  "adjust_loop items i left =
     (if i < length items
      then (let item = items ! i;
                j = group_end items item (i + 1);
                equal = int j - int i
            in if equal \<le> left
               then adjust_loop (increment_range items i j) j (left - equal)
               else adjust_loop items j left)
      else items)"
  by pat_completeness auto
termination
proof (relation "measure (\<lambda>(items, i, left). length items - i)", goal_cases)
  case 1
  show ?case by simp
next
  case (2 items i left item j equal)
  have "i + 1 \<le> j" using 2 group_end_ge by simp
  moreover have "j \<le> length items" using 2 group_end_le by simp
  ultimately show ?case using 2 by (simp add: length_increment_range)
next
  case (3 items i left item j equal)
  have "i + 1 \<le> j" using 3 group_end_ge by simp
  then show ?case using 3 by simp
qed

declare adjust_loop.simps [simp del]

text \<open>
  \<open>ranges::sort\<close> is a library routine that is not stable: it returns some permutation
  of its input that is ordered by the comparison. The model takes the routine as the
  parameter \<open>srt\<close>; \<open>sorts_items\<close> is its contract.
\<close>

abbreviation item_sorted :: "PercentCounterItem list \<Rightarrow> bool" where
  "item_sorted \<equiv> sorted_wrt (\<lambda>a b. \<not> item_less b a)"

definition sorts_items :: "(PercentCounterItem list \<Rightarrow> PercentCounterItem list) \<Rightarrow> bool" where
  "sorts_items srt = (\<forall>xs. mset (srt xs) = mset xs \<and> item_sorted (srt xs))"

definition AdjustPercentCount ::
  "(PercentCounterItem list \<Rightarrow> PercentCounterItem list) \<Rightarrow> PercentCounterItem list \<Rightarrow> int
     \<Rightarrow> PercentCounterItem list" where
  "AdjustPercentCount srt items left = adjust_loop (srt items) 0 left"

text \<open>
  The first loop of \<open>CountNicePercent\<close>, over the votes zipped with the items and the
  indices from \<open>index\<close> on; it returns the items and the final value of \<open>left\<close>.
\<close>

fun fill_items ::
  "int list \<Rightarrow> int \<Rightarrow> nat \<Rightarrow> int \<Rightarrow> error + (PercentCounterItem list \<times> int)" where
  "fill_items [] tot idx left = Inr ([], left)"
| "fill_items (v # vs) tot idx left =
     (if \<not> fits_int (v * 100) then Inl IntOverflow
      else if tot = 0 then Inl DivisionByZero
      else let p = trunc_div (v * 100) tot;
               r = v * 100 - p * tot
           in if \<not> fits_int (left - p) then Inl IntOverflow
              else (case fill_items vs tot (idx + 1) (left - p) of
                      Inl e \<Rightarrow> Inl e
                    | Inr (items, left') \<Rightarrow>
                        Inr (\<lparr>index = idx, percent = p, remainder = r\<rparr> # items, left')))"

text \<open>The last loop: \<open>result[item.index] = item.percent\<close> for every item.\<close>

fun write_back :: "PercentCounterItem list \<Rightarrow> int list \<Rightarrow> int list" where
  "write_back [] result = result"
| "write_back (item # items) result = write_back items (result[index item := percent item])"

text \<open>
  \<open>CountNicePercent\<close>. \<open>PollData::kMaxOptions\<close> is declared outside this file and is the
  parameter \<open>kMaxOptions\<close>; \<open>result\<close> is the content of the output span before the
  call, and the value returned is its content after it.
\<close>

definition CountNicePercent ::
  "(PercentCounterItem list \<Rightarrow> PercentCounterItem list) \<Rightarrow> nat \<Rightarrow> int list \<Rightarrow> int \<Rightarrow> int list
     \<Rightarrow> error + int list" where
  "CountNicePercent srt kMaxOptions votes tot result =
     (if \<not> length result \<ge> length votes then Inl ExpectsFailed
      else if \<not> length votes \<le> kMaxOptions then Inl ExpectsFailed
      else (case fill_items votes tot 0 100 of
              Inl e \<Rightarrow> Inl e
            | Inr (items, left) \<Rightarrow>
                Inr (write_back
                       (if left > 0 \<and> left \<le> int (length votes)
                        then AdjustPercentCount srt items left
                        else items)
                       result)))"

text \<open>
  An insertion sort by \<open>operator<\<close>, one routine that meets the contract of
  \<open>ranges::sort\<close>, and a second one that orders equal items the other way round.
\<close>

fun insert_item :: "PercentCounterItem \<Rightarrow> PercentCounterItem list \<Rightarrow> PercentCounterItem list" where
  "insert_item x [] = [x]"
| "insert_item x (y # ys) = (if item_less y x then y # insert_item x ys else x # y # ys)"

fun sort_items :: "PercentCounterItem list \<Rightarrow> PercentCounterItem list" where
  "sort_items [] = []"
| "sort_items (x # xs) = insert_item x (sort_items xs)"

definition sort_items_rev :: "PercentCounterItem list \<Rightarrow> PercentCounterItem list" where
  "sort_items_rev xs = sort_items (rev xs)"

section \<open>The poll view and its answers animation\<close>

text \<open>
  Modelled from the spec: \<open>anim::value\<close> and \<open>Ui::Animations::Simple\<close> are declared in
  \<open>ui/effects\<close>, outside this file. The specification describes each channel of an
  option as a value interpolated linearly between a start and an end value by a shared
  progress from 0 to 1. \<open>value_of\<close> is the value made from one number,
  \<open>value_start\<close> begins an interpolation from the current value to a new target and
  \<open>value_update\<close> moves the current value to the given progress. \<open>float64\<close> is
  modelled by \<open>real\<close>: the claims below are about which numbers are stored and copied,
  not about rounding.
\<close>

record anim_value =
  av_from :: real
  av_to :: real
  av_current :: real

definition value_of :: "real \<Rightarrow> anim_value" where
  "value_of v = \<lparr>av_from = v, av_to = v, av_current = v\<rparr>"

definition value_start :: "anim_value \<Rightarrow> real \<Rightarrow> anim_value" where
  "value_start v target = v\<lparr>av_from := av_current v, av_to := target\<rparr>"

definition value_update :: "anim_value \<Rightarrow> real \<Rightarrow> anim_value" where
  "value_update v progress = v\<lparr>av_current := av_from v + (av_to v - av_from v) * progress\<rparr>"

text \<open>
  Modelled from the spec: the shared progress timeline. \<open>Simple_start\<close> is
  \<open>progress.start(callback, from, to, duration)\<close>; \<open>Simple_value\<close> is
  \<open>progress.value(final)\<close>, which is the value \<open>now\<close> that the clock gives to a running
  timeline and \<open>final\<close> when none runs.
\<close>

record Simple =
  animating :: bool
  timeline_from :: real
  timeline_to :: real

definition Simple_idle :: Simple where
  "Simple_idle = \<lparr>animating = False, timeline_from = 0, timeline_to = 0\<rparr>"

definition Simple_start :: "real \<Rightarrow> real \<Rightarrow> Simple" where
  "Simple_start a b = \<lparr>animating = True, timeline_from = a, timeline_to = b\<rparr>"

definition Simple_value :: "Simple \<Rightarrow> real \<Rightarrow> real \<Rightarrow> real" where
  "Simple_value p final now = (if animating p then now else final)"

text \<open>
  The structs of the file. Fields that only serve text layout, click handling and
  ripples (\<open>votesPercentWidth\<close>, \<open>handler\<close>, \<open>ripple\<close>, the radial animation) are left
  out: nothing modelled here reads them.
\<close>

record AnswerAnimation =
  aa_percent :: anim_value
  aa_filling :: anim_value
  aa_opacity :: anim_value

record AnswersAnimation =
  anim_data :: "AnswerAnimation list"
  anim_progress :: Simple

record SendingAnimation =
  send_option :: string

record Answer =
  an_text :: string
  an_option :: string
  an_votes :: int
  an_votesPercent :: int
  an_filling :: real
  an_votesPercentString :: string
  an_chosen :: bool

text \<open>
  Modelled from the spec: the vote data of \<open>data/data_poll.h\<close>, an ordered list of
  options with identifier and vote count, the total voter count, the closed flag and
  the viewer-voted flag (\<open>PollData::voted()\<close>), with the version counter and the option
  of a vote that is being sent.
\<close>

record PollAnswer =
  pa_text :: string
  pa_option :: string
  pa_votes :: int

record PollData =
  poll_version :: int
  poll_question :: string
  poll_answers :: "PollAnswer list"
  poll_totalVoters :: int
  poll_closed :: bool
  poll_voted :: bool
  poll_sendingVote :: string

datatype LangKey = lng_polls_closed | lng_polls_anonymous

datatype VotesLabel = LabelEmpty | LabelVotesNone | LabelVotesCount int

text \<open>
  The members of \<open>HistoryPoll\<close>. A \<open>Text\<close> is modelled by its string, the subtitle by
  the language key it was set from (\<open>None\<close> while it is empty) and the total-votes label
  by the count it shows. The poll data behind the pointer \<open>_poll\<close> changes outside the
  view, so it is a parameter of every operation that reads it.
\<close>

record HistoryPoll =
  hp_pollVersion :: int
  hp_voted :: bool
  hp_closed :: bool
  hp_question :: string
  hp_subtitle :: "LangKey option"
  hp_answers :: "Answer list"
  hp_totalVotes :: int
  hp_totalVotesLabel :: VotesLabel
  hp_answersAnimation :: "AnswersAnimation option"
  hp_sendingAnimation :: "SendingAnimation option"

text \<open>\<open>QString::number\<close> on an \<open>int\<close>: the decimal digits, with a sign.\<close>

fun digits_of_nat :: "nat \<Rightarrow> string" where
  "digits_of_nat n =
     (if n < 10 then [''0123456789'' ! n]
      else digits_of_nat (n div 10) @ [''0123456789'' ! (n mod 10)])"

declare digits_of_nat.simps [simp del]

definition QString_number :: "int \<Rightarrow> string" where
  "QString_number i =
     (if i < 0 then CHR ''-'' # digits_of_nat (nat (- i)) else digits_of_nat (nat i))"

definition Answer_default :: Answer where
  "Answer_default =
     \<lparr>an_text = [], an_option = [], an_votes = 0, an_votesPercent = 0, an_filling = 0,
      an_votesPercentString = [], an_chosen = False\<rparr>"

definition fillText :: "Answer \<Rightarrow> PollAnswer \<Rightarrow> Answer" where
  "fillText answer original =
     (if an_text answer \<noteq> [] \<and> an_text answer = pa_text original then answer
      else answer\<lparr>an_text := pa_text original\<rparr>)"

definition canVote :: "HistoryPoll \<Rightarrow> bool" where
  "canVote s = (\<not> hp_voted s \<and> \<not> hp_closed s)"

definition resetAnswersAnimation :: "HistoryPoll \<Rightarrow> PollData \<Rightarrow> HistoryPoll" where
  "resetAnswersAnimation s poll =
     (let s1 = s\<lparr>hp_answersAnimation := None\<rparr>
      in if poll_sendingVote poll = [] then s1\<lparr>hp_sendingAnimation := None\<rparr> else s1)"

definition updateAnswers :: "HistoryPoll \<Rightarrow> PollData \<Rightarrow> HistoryPoll" where
  "updateAnswers s poll =
     (let changed = (map an_option (hp_answers s) \<noteq> map pa_option (poll_answers poll))
      in if \<not> changed
         then s\<lparr>hp_answers := map2 fillText (hp_answers s) (poll_answers poll)\<rparr>
         else resetAnswersAnimation
                (s\<lparr>hp_answers :=
                     map (\<lambda>answer. fillText (Answer_default\<lparr>an_option := pa_option answer\<rparr>) answer)
                       (poll_answers poll)\<rparr>)
                poll)"

definition updateTotalVotes :: "HistoryPoll \<Rightarrow> PollData \<Rightarrow> HistoryPoll" where
  "updateTotalVotes s poll =
     (if hp_totalVotes s = poll_totalVoters poll \<and> hp_totalVotesLabel s \<noteq> LabelEmpty then s
      else s\<lparr>hp_totalVotes := poll_totalVoters poll,
             hp_totalVotesLabel :=
               (if poll_totalVoters poll = 0 then LabelVotesNone
                else LabelVotesCount (poll_totalVoters poll))\<rparr>)"

definition updateAnswerVotesFromOriginal ::
  "HistoryPoll \<Rightarrow> Answer \<Rightarrow> PollAnswer \<Rightarrow> int \<Rightarrow> int \<Rightarrow> Answer" where
  "updateAnswerVotesFromOriginal s answer original pct maxVotes =
     (let answer1 =
            (if canVote s
             then answer\<lparr>an_votesPercent := 0, an_votesPercentString := []\<rparr>
             else if an_votesPercentString answer = [] \<or> an_votesPercent answer \<noteq> pct
             then answer\<lparr>an_votesPercent := pct,
                         an_votesPercentString := QString_number pct @ ''%''\<rparr>
             else answer);
          answer2 = answer1\<lparr>an_votes := pa_votes original\<rparr>
      in answer2\<lparr>an_filling := real_of_int (an_votes answer2) / real_of_int maxVotes\<rparr>)"

text \<open>\<open>ranges::max_element\<close> by votes, on a list that is not empty.\<close>

definition max_element_votes :: "PollAnswer \<Rightarrow> PollAnswer list \<Rightarrow> int" where
  "max_element_votes a rest = fold (\<lambda>b m. if m < pa_votes b then pa_votes b else m) rest (pa_votes a)"

definition updateAnswerVotes ::
  "(PercentCounterItem list \<Rightarrow> PercentCounterItem list) \<Rightarrow> nat \<Rightarrow> HistoryPoll \<Rightarrow> PollData
     \<Rightarrow> error + HistoryPoll" where
  "updateAnswerVotes srt kMaxOptions s poll =
     (case poll_answers poll of
        [] \<Rightarrow> Inr s
      | a # rest \<Rightarrow>
          if length (poll_answers poll) \<noteq> length (hp_answers s) then Inr s
          else let totalVotes = max 1 (poll_totalVoters poll);
                   maxVotes = max 1 (max_element_votes a rest);
                   count = length (poll_answers poll)
               in if \<not> count \<le> kMaxOptions then Inl AssertFailed
                  else (case CountNicePercent srt kMaxOptions (map pa_votes (poll_answers poll))
                               totalVotes (replicate count 0) of
                          Inl e \<Rightarrow> Inl e
                        | Inr percents \<Rightarrow>
                            Inr (s\<lparr>hp_answers :=
                                     map (\<lambda>(answer, original, pct).
                                            updateAnswerVotesFromOriginal s answer original pct maxVotes)
                                       (zip (hp_answers s) (zip (poll_answers poll) percents))\<rparr>)))"

definition updateVotes ::
  "(PercentCounterItem list \<Rightarrow> PercentCounterItem list) \<Rightarrow> nat \<Rightarrow> HistoryPoll \<Rightarrow> PollData
     \<Rightarrow> error + HistoryPoll" where
  "updateVotes srt kMaxOptions s poll =
     (case updateAnswerVotes srt kMaxOptions (s\<lparr>hp_voted := poll_voted poll\<rparr>) poll of
        Inl e \<Rightarrow> Inl e
      | Inr s1 \<Rightarrow> Inr (updateTotalVotes s1 poll))"

definition answerVotesChanged :: "HistoryPoll \<Rightarrow> PollData \<Rightarrow> bool" where
  "answerVotesChanged s poll =
     (if length (poll_answers poll) \<noteq> length (hp_answers s) \<or> poll_answers poll = [] then False
      else map an_votes (hp_answers s) \<noteq> map pa_votes (poll_answers poll))"

text \<open>The lambda \<open>convert\<close> of \<open>saveStateInAnimation\<close>, with the \<open>can\<close> it captures.\<close>

definition convert :: "bool \<Rightarrow> Answer \<Rightarrow> AnswerAnimation" where
  "convert can answer =
     \<lparr>aa_percent = value_of (if can then 0 else real_of_int (an_votesPercent answer)),
      aa_filling = value_of (if can then 0 else an_filling answer),
      aa_opacity = value_of (if can then 0 else 1)\<rparr>"

definition saveStateInAnimation :: "HistoryPoll \<Rightarrow> HistoryPoll" where
  "saveStateInAnimation s =
     (if hp_answersAnimation s \<noteq> None then s
      else let can = canVote s
           in s\<lparr>hp_answersAnimation :=
                  Some \<lparr>anim_data = map (convert can) (hp_answers s),
                        anim_progress = Simple_idle\<rparr>\<rparr>)"

definition checkAnimationStart :: "HistoryPoll \<Rightarrow> PollData \<Rightarrow> bool \<times> HistoryPoll" where
  "checkAnimationStart s poll =
     (if length (poll_answers poll) \<noteq> length (hp_answers s) then (False, s)
      else let result = (canVote s \<noteq> (\<not> poll_voted poll \<and> \<not> poll_closed poll))
                          \<or> answerVotesChanged s poll
           in if result then (result, saveStateInAnimation s) else (result, s))"

definition startAnswersAnimation :: "HistoryPoll \<Rightarrow> HistoryPoll" where
  "startAnswersAnimation s =
     (case hp_answersAnimation s of
        None \<Rightarrow> s
      | Some a \<Rightarrow>
          let can = canVote s;
              started = map (\<lambda>(answer, d).
                  d\<lparr>aa_percent := value_start (aa_percent d)
                                     (if can then 0 else real_of_int (an_votesPercent answer)),
                    aa_filling := value_start (aa_filling d) (if can then 0 else an_filling answer),
                    aa_opacity := value_start (aa_opacity d) (if can then 0 else 1)\<rparr>)
                (zip (hp_answers s) (anim_data a))
          in s\<lparr>hp_answersAnimation :=
                 Some (a\<lparr>anim_data := started @ drop (length started) (anim_data a),
                         anim_progress := Simple_start 0 1\<rparr>)\<rparr>)"

definition updateTexts ::
  "(PercentCounterItem list \<Rightarrow> PercentCounterItem list) \<Rightarrow> nat \<Rightarrow> HistoryPoll \<Rightarrow> PollData
     \<Rightarrow> error + HistoryPoll" where
  "updateTexts srt kMaxOptions s poll =
     (if hp_pollVersion s = poll_version poll then Inr s
      else let s1 = s\<lparr>hp_pollVersion := poll_version poll\<rparr>;
               (willStartAnimation, s2) = checkAnimationStart s1 poll;
               s3 = (if hp_question s2 \<noteq> poll_question poll
                     then s2\<lparr>hp_question := poll_question poll\<rparr> else s2);
               s4 = (if hp_closed s3 \<noteq> poll_closed poll \<or> hp_subtitle s3 = None
                     then s3\<lparr>hp_closed := poll_closed poll,
                             hp_subtitle := Some (if poll_closed poll then lng_polls_closed
                                                  else lng_polls_anonymous)\<rparr>
                     else s3);
               s5 = updateAnswers s4 poll
           in case updateVotes srt kMaxOptions s5 poll of
                Inl e \<Rightarrow> Inl e
              | Inr s6 \<Rightarrow> Inr (if willStartAnimation then startAnswersAnimation s6 else s6))"

definition checkSendingAnimation :: "HistoryPoll \<Rightarrow> PollData \<Rightarrow> HistoryPoll" where
  "checkSendingAnimation s poll =
     (let sending = poll_sendingVote poll
      in if (sending = []) = (hp_sendingAnimation s = None)
         then (case hp_sendingAnimation s of
                 None \<Rightarrow> s
               | Some sa \<Rightarrow> s\<lparr>hp_sendingAnimation := Some (sa\<lparr>send_option := sending\<rparr>)\<rparr>)
         else if sending = []
         then (if hp_answersAnimation s = None then s\<lparr>hp_sendingAnimation := None\<rparr> else s)
         else s\<lparr>hp_sendingAnimation := Some \<lparr>send_option = sending\<rparr>\<rparr>)"

text \<open>
  The part of \<open>draw\<close> that changes the state, for a frame at which the clock gives the
  progress \<open>now\<close>; \<open>wide\<close> is the test that the widget is wide enough to be painted.
  Reading \<open>_answersAnimation->data[index]\<close> past the end of the vector is undefined and
  is the error \<open>IndexOutOfRange\<close>.
\<close>

definition draw :: "HistoryPoll \<Rightarrow> PollData \<Rightarrow> bool \<Rightarrow> real \<Rightarrow> error + HistoryPoll" where
  "draw s poll wide now =
     (if \<not> wide then Inr s
      else let s1 = checkSendingAnimation s poll;
               progress = (case hp_answersAnimation s1 of
                             Some a \<Rightarrow> Simple_value (anim_progress a) 1 now
                           | None \<Rightarrow> 1);
               s2 = (if progress = 1 then resetAnswersAnimation s1 poll else s1)
           in case hp_answersAnimation s2 of
                None \<Rightarrow> Inr s2
              | Some a \<Rightarrow>
                  if length (anim_data a) < length (hp_answers s2) then Inl IndexOutOfRange
                  else Inr (s2\<lparr>hp_answersAnimation :=
                                Some (a\<lparr>anim_data :=
                                        map (\<lambda>d. d\<lparr>aa_percent := value_update (aa_percent d) progress,
                                                   aa_filling := value_update (aa_filling d) progress,
                                                   aa_opacity := value_update (aa_opacity d) progress\<rparr>)
                                          (take (length (hp_answers s2)) (anim_data a))
                                        @ drop (length (hp_answers s2)) (anim_data a)\<rparr>)\<rparr>))"

section \<open>Auxiliary definitions\<close>

text \<open>
  A poll on which the allocator runs: at most \<open>kMaxOptions\<close> options, vote counts that
  are not negative and whose hundredfold fits \<open>int\<close>, and base percents whose sum does
  not take \<open>left\<close> below the least \<open>int\<close>.
\<close>

definition poll_ok :: "nat \<Rightarrow> PollData \<Rightarrow> bool" where
  "poll_ok kMaxOptions poll =
     (length (poll_answers poll) \<le> kMaxOptions
      \<and> list_all (\<lambda>a. 0 \<le> pa_votes a \<and> pa_votes a * 100 \<le> INT_MAX) (poll_answers poll)
      \<and> INT_MIN \<le> 100 - sum_list (map (\<lambda>a. pa_votes a * 100 div max 1 (poll_totalVoters poll))
                                   (poll_answers poll)))"

text \<open>
  Two items are in one group when percent and remainder agree; \<open>incr\<close> is
  \<open>++item.percent\<close>. \<open>walk_runs\<close> processes a list run by run, a run being a maximal
  block of neighbours in one group; \<open>adjust_loop\<close> is shown to compute it.
\<close>

definition same_key :: "PercentCounterItem \<Rightarrow> PercentCounterItem \<Rightarrow> bool" where
  "same_key a b = (percent b = percent a \<and> remainder b = remainder a)"

definition incr :: "PercentCounterItem \<Rightarrow> PercentCounterItem" where
  "incr a = a\<lparr>percent := percent a + 1\<rparr>"

function walk_runs :: "PercentCounterItem list \<Rightarrow> int \<Rightarrow> PercentCounterItem list" where
  "walk_runs [] left = []"
| "walk_runs (x # xs) left =
     (let g = x # takeWhile (same_key x) xs;
          rest = dropWhile (same_key x) xs
      in if int (length g) \<le> left
         then map incr g @ walk_runs rest (left - int (length g))
         else g @ walk_runs rest left)"
  by pat_completeness auto
termination
  by (relation "measure (\<lambda>(xs, left). length xs)") (auto simp: length_dropWhile_le less_Suc_eq_le)

text \<open>
  The deficit-distribution step in the specification's words: the group of the first
  option is every option with the same percent and remainder; a group that fits within
  the deficit is incremented as a whole and consumes it, any other group is skipped as
  a whole, and the walk continues with the options outside the group.
\<close>

function spec_distribute_groups :: "PercentCounterItem list \<Rightarrow> int \<Rightarrow> PercentCounterItem list" where
  "spec_distribute_groups [] left = []"
| "spec_distribute_groups (x # xs) left =
     (let group = x # filter (same_key x) xs;
          others = filter (\<lambda>y. \<not> same_key x y) xs
      in if int (length group) \<le> left
         then map incr group @ spec_distribute_groups others (left - int (length group))
         else group @ spec_distribute_groups others left)"
  by pat_completeness auto
termination
  by (relation "measure (\<lambda>(xs, left). length xs)") (auto simp: less_Suc_eq_le)

text \<open>The item that the first loop of \<open>CountNicePercent\<close> writes for a vote count.\<close>

definition base_item :: "int \<Rightarrow> nat \<Rightarrow> int \<Rightarrow> PercentCounterItem" where
  "base_item tot i v =
     \<lparr>index = i, percent = trunc_div (v * 100) tot,
      remainder = v * 100 - trunc_div (v * 100) tot * tot\<rparr>"

text \<open>
  The part of the deficit that the specification's walk over the tie groups leaves
  unspent: a group that fits within the remaining deficit consumes one point per
  member, any other group consumes nothing.
\<close>

function spec_unspent_deficit :: "PercentCounterItem list \<Rightarrow> int \<Rightarrow> int" where
  "spec_unspent_deficit [] left = left"
| "spec_unspent_deficit (x # xs) left =
     (let group = x # filter (same_key x) xs;
          others = filter (\<lambda>y. \<not> same_key x y) xs
      in if int (length group) \<le> left
         then spec_unspent_deficit others (left - int (length group))
         else spec_unspent_deficit others left)"
  by pat_completeness auto
termination
  by (relation "measure (\<lambda>(xs, left). length xs)") (auto simp: less_Suc_eq_le)

text \<open>
  Whether the specification's walk skips a tie group while a positive deficit remains,
  that is, meets a group larger than the deficit that is left at that point.
\<close>

function spec_group_skipped :: "PercentCounterItem list \<Rightarrow> int \<Rightarrow> bool" where
  "spec_group_skipped [] left = False"
| "spec_group_skipped (x # xs) left =
     (let group = x # filter (same_key x) xs;
          others = filter (\<lambda>y. \<not> same_key x y) xs
      in if int (length group) \<le> left
         then spec_group_skipped others (left - int (length group))
         else (0 < left \<or> spec_group_skipped others left))"
  by pat_completeness auto
termination
  by (relation "measure (\<lambda>(xs, left). length xs)") (auto simp: less_Suc_eq_le)

text \<open>
  The two notions above for a vote vector and a total, in the specification's words: the
  base percentages are the floors \<open>votes * 100 div total\<close>, the deficit is 100 minus
  their sum, and the walk runs over the options ordered by remainder descending, then
  percentage ascending, when the deficit is positive and at most the number of options
  (otherwise no point is distributed and the whole deficit stays unspent).
\<close>

definition spec_unspent :: "int \<Rightarrow> int list \<Rightarrow> int" where
  "spec_unspent tot votes =
     (let left = 100 - sum_list (map (\<lambda>v. v * 100 div tot) votes)
      in if 0 < left \<and> left \<le> int (length votes)
         then spec_unspent_deficit
                (sort_items (map2 (base_item tot) [0..<length votes] votes)) left
         else left)"

definition spec_tie_group_skipped :: "int \<Rightarrow> int list \<Rightarrow> bool" where
  "spec_tie_group_skipped tot votes =
     (let left = 100 - sum_list (map (\<lambda>v. v * 100 div tot) votes)
      in 0 < left \<and> left \<le> int (length votes)
         \<and> spec_group_skipped
              (sort_items (map2 (base_item tot) [0..<length votes] votes)) left)"

text \<open>The state after the question and the closed flag of \<open>updateTexts\<close> are refreshed.\<close>

definition header_refreshed :: "HistoryPoll \<Rightarrow> PollData \<Rightarrow> HistoryPoll" where
  "header_refreshed s2 poll =
     (let s3 = (if hp_question s2 \<noteq> poll_question poll
                then s2\<lparr>hp_question := poll_question poll\<rparr> else s2)
      in if hp_closed s3 \<noteq> poll_closed poll \<or> hp_subtitle s3 = None
         then s3\<lparr>hp_closed := poll_closed poll,
                 hp_subtitle := Some (if poll_closed poll then lng_polls_closed
                                      else lng_polls_anonymous)\<rparr>
         else s3)"

text \<open>The answers animation, when there is one, has one entry for every stored answer.\<close>

definition animation_fits :: "HistoryPoll \<Rightarrow> bool" where
  "animation_fits s =
     (case hp_answersAnimation s of
        None \<Rightarrow> True
      | Some a \<Rightarrow> length (anim_data a) = length (hp_answers s))"

text \<open>
  The states of a poll view: the constructor leaves \<open>_answersAnimation\<close> empty (the
  initial values of the other members are set in the header, so they are left open
  here), and from then on the state changes by update passes and by painted frames,
  with any poll data and any clock.
\<close>

inductive reachable ::
  "(PercentCounterItem list \<Rightarrow> PercentCounterItem list) \<Rightarrow> nat \<Rightarrow> HistoryPoll \<Rightarrow> bool"
  for srt :: "PercentCounterItem list \<Rightarrow> PercentCounterItem list" and kMaxOptions :: nat where
  created: "hp_answersAnimation s = None \<Longrightarrow> reachable srt kMaxOptions s"
| updated: "reachable srt kMaxOptions s \<Longrightarrow> updateTexts srt kMaxOptions s poll = Inr s'
            \<Longrightarrow> reachable srt kMaxOptions s'"
| drawn: "reachable srt kMaxOptions s \<Longrightarrow> draw s poll wide now = Inr s'
          \<Longrightarrow> reachable srt kMaxOptions s'"

text \<open>
  Example states and poll data for the closed theorems below: a view right after
  construction, a poll with two options, and the states that the update pass produces
  from them (each is checked against \<open>updateTexts\<close>).
\<close>

definition view_created :: HistoryPoll where
  "view_created = \<lparr>hp_pollVersion = 0, hp_voted = False, hp_closed = False, hp_question = [],
     hp_subtitle = None, hp_answers = [], hp_totalVotes = 0, hp_totalVotesLabel = LabelEmpty,
     hp_answersAnimation = None, hp_sendingAnimation = None\<rparr>"

definition poll_at :: "int \<Rightarrow> int \<Rightarrow> int \<Rightarrow> int \<Rightarrow> bool \<Rightarrow> bool \<Rightarrow> PollData" where
  "poll_at v a b t vd cl = \<lparr>poll_version = v, poll_question = ''Q'',
     poll_answers = [\<lparr>pa_text = ''A'', pa_option = ''0'', pa_votes = a\<rparr>,
                     \<lparr>pa_text = ''B'', pa_option = ''1'', pa_votes = b\<rparr>],
     poll_totalVoters = t, poll_closed = cl, poll_voted = vd, poll_sendingVote = []\<rparr>"

definition shown_open :: HistoryPoll where
  "shown_open = \<lparr>hp_pollVersion = 1, hp_voted = False, hp_closed = False,
        hp_question = ''Q'', hp_subtitle = Some lng_polls_anonymous,
        hp_answers =
          [\<lparr>an_text = ''A'', an_option = ''0'', an_votes = 1,
              an_votesPercent = 0, an_filling = 1,
              an_votesPercentString = [], an_chosen = False\<rparr>,
           \<lparr>an_text = ''B'', an_option = ''1'', an_votes = 1,
              an_votesPercent = 0, an_filling = 1,
              an_votesPercentString = [], an_chosen = False\<rparr>],
        hp_totalVotes = 2, hp_totalVotesLabel = LabelVotesCount 2,
        hp_answersAnimation = None, hp_sendingAnimation = None\<rparr>"

definition open_changed :: HistoryPoll where
  "open_changed = \<lparr>hp_pollVersion = 2, hp_voted = False, hp_closed = False,
        hp_question = ''Q'', hp_subtitle = Some lng_polls_anonymous,
        hp_answers =
          [\<lparr>an_text = ''A'', an_option = ''0'', an_votes = 2,
              an_votesPercent = 0, an_filling = 1,
              an_votesPercentString = [], an_chosen = False\<rparr>,
           \<lparr>an_text = ''B'', an_option = ''1'', an_votes = 1,
              an_votesPercent = 0, an_filling = 1 / 2,
              an_votesPercentString = [], an_chosen = False\<rparr>],
        hp_totalVotes = 3, hp_totalVotesLabel = LabelVotesCount 3,
        hp_answersAnimation =
          Some
           \<lparr>anim_data =
              [\<lparr>aa_percent = \<lparr>av_from = 0, av_to = 0, av_current = 0\<rparr>,
                  aa_filling = \<lparr>av_from = 0, av_to = 0, av_current = 0\<rparr>,
                  aa_opacity = \<lparr>av_from = 0, av_to = 0, av_current = 0\<rparr>\<rparr>,
               \<lparr>aa_percent = \<lparr>av_from = 0, av_to = 0, av_current = 0\<rparr>,
                  aa_filling = \<lparr>av_from = 0, av_to = 0, av_current = 0\<rparr>,
                  aa_opacity = \<lparr>av_from = 0, av_to = 0, av_current = 0\<rparr>\<rparr>],
              anim_progress =
                \<lparr>animating = True, timeline_from = 0, timeline_to = 1\<rparr>\<rparr>,
        hp_sendingAnimation = None\<rparr>"

definition shown_voted :: HistoryPoll where
  "shown_voted = \<lparr>hp_pollVersion = 1, hp_voted = True, hp_closed = False,
        hp_question = ''Q'', hp_subtitle = Some lng_polls_anonymous,
        hp_answers =
          [\<lparr>an_text = ''A'', an_option = ''0'', an_votes = 1,
              an_votesPercent = 50, an_filling = 1,
              an_votesPercentString = ''50%'', an_chosen = False\<rparr>,
           \<lparr>an_text = ''B'', an_option = ''1'', an_votes = 1,
              an_votesPercent = 50, an_filling = 1,
              an_votesPercentString = ''50%'', an_chosen = False\<rparr>],
        hp_totalVotes = 2, hp_totalVotesLabel = LabelVotesCount 2,
        hp_answersAnimation = None, hp_sendingAnimation = None\<rparr>"

definition retracting :: HistoryPoll where
  "retracting = \<lparr>hp_pollVersion = 2, hp_voted = False, hp_closed = False,
        hp_question = ''Q'', hp_subtitle = Some lng_polls_anonymous,
        hp_answers =
          [\<lparr>an_text = ''A'', an_option = ''0'', an_votes = 0,
              an_votesPercent = 0, an_filling = 0,
              an_votesPercentString = [], an_chosen = False\<rparr>,
           \<lparr>an_text = ''B'', an_option = ''1'', an_votes = 1,
              an_votesPercent = 0, an_filling = 1,
              an_votesPercentString = [], an_chosen = False\<rparr>],
        hp_totalVotes = 1, hp_totalVotesLabel = LabelVotesCount 1,
        hp_answersAnimation =
          Some
           \<lparr>anim_data =
              [\<lparr>aa_percent = \<lparr>av_from = 50, av_to = 0, av_current = 50\<rparr>,
                  aa_filling = \<lparr>av_from = 1, av_to = 0, av_current = 1\<rparr>,
                  aa_opacity = \<lparr>av_from = 1, av_to = 0, av_current = 1\<rparr>\<rparr>,
               \<lparr>aa_percent = \<lparr>av_from = 50, av_to = 0, av_current = 50\<rparr>,
                  aa_filling = \<lparr>av_from = 1, av_to = 0, av_current = 1\<rparr>,
                  aa_opacity = \<lparr>av_from = 1, av_to = 0, av_current = 1\<rparr>\<rparr>],
              anim_progress =
                \<lparr>animating = True, timeline_from = 0, timeline_to = 1\<rparr>\<rparr>,
        hp_sendingAnimation = None\<rparr>"


definition counting :: HistoryPoll where
  "counting = \<lparr>hp_pollVersion = 2, hp_voted = True, hp_closed = False,
        hp_question = ''Q'', hp_subtitle = Some lng_polls_anonymous,
        hp_answers =
          [\<lparr>an_text = ''A'', an_option = ''0'', an_votes = 1,
              an_votesPercent = 33, an_filling = 1 / 2,
              an_votesPercentString = ''33%'', an_chosen = False\<rparr>,
           \<lparr>an_text = ''B'', an_option = ''1'', an_votes = 2,
              an_votesPercent = 67, an_filling = 1,
              an_votesPercentString = ''67%'', an_chosen = False\<rparr>],
        hp_totalVotes = 3, hp_totalVotesLabel = LabelVotesCount 3,
        hp_answersAnimation =
          Some
           \<lparr>anim_data =
              [\<lparr>aa_percent = \<lparr>av_from = 50, av_to = 33, av_current = 50\<rparr>,
                  aa_filling = \<lparr>av_from = 1, av_to = 1 / 2, av_current = 1\<rparr>,
                  aa_opacity = \<lparr>av_from = 1, av_to = 1, av_current = 1\<rparr>\<rparr>,
               \<lparr>aa_percent = \<lparr>av_from = 50, av_to = 67, av_current = 50\<rparr>,
                  aa_filling = \<lparr>av_from = 1, av_to = 1, av_current = 1\<rparr>,
                  aa_opacity = \<lparr>av_from = 1, av_to = 1, av_current = 1\<rparr>\<rparr>],
              anim_progress =
                \<lparr>animating = True, timeline_from = 0, timeline_to = 1\<rparr>\<rparr>,
        hp_sendingAnimation = None\<rparr>"

definition counting_again :: HistoryPoll where
  "counting_again = \<lparr>hp_pollVersion = 3, hp_voted = True, hp_closed = False,
        hp_question = ''Q'', hp_subtitle = Some lng_polls_anonymous,
        hp_answers =
          [\<lparr>an_text = ''A'', an_option = ''0'', an_votes = 1,
              an_votesPercent = 25, an_filling = 1 / 3,
              an_votesPercentString = ''25%'', an_chosen = False\<rparr>,
           \<lparr>an_text = ''B'', an_option = ''1'', an_votes = 3,
              an_votesPercent = 75, an_filling = 1,
              an_votesPercentString = ''75%'', an_chosen = False\<rparr>],
        hp_totalVotes = 4, hp_totalVotesLabel = LabelVotesCount 4,
        hp_answersAnimation =
          Some
           \<lparr>anim_data =
              [\<lparr>aa_percent = \<lparr>av_from = 50, av_to = 25, av_current = 50\<rparr>,
                  aa_filling = \<lparr>av_from = 1, av_to = 1 / 3, av_current = 1\<rparr>,
                  aa_opacity = \<lparr>av_from = 1, av_to = 1, av_current = 1\<rparr>\<rparr>,
               \<lparr>aa_percent = \<lparr>av_from = 50, av_to = 75, av_current = 50\<rparr>,
                  aa_filling = \<lparr>av_from = 1, av_to = 1, av_current = 1\<rparr>,
                  aa_opacity = \<lparr>av_from = 1, av_to = 1, av_current = 1\<rparr>\<rparr>],
              anim_progress =
                \<lparr>animating = True, timeline_from = 0, timeline_to = 1\<rparr>\<rparr>,
        hp_sendingAnimation = None\<rparr>"

definition poll_single :: PollData where
  "poll_single = \<lparr>poll_version = 3, poll_question = ''Q'',
     poll_answers = [\<lparr>pa_text = ''A'', pa_option = ''0'', pa_votes = 1\<rparr>],
     poll_totalVoters = 1, poll_closed = False, poll_voted = True, poll_sendingVote = []\<rparr>"

section \<open>The deficit-distribution loop as a walk over runs\<close>

lemma group_end_takeWhile:
  "j \<le> length items \<Longrightarrow>
   group_end items item j = j + length (takeWhile (same_key item) (drop j items))"
proof (induction items item j rule: group_end.induct)
  case (1 items item j)
  show ?case
  proof (cases "j < length items")
    case True
    then have d: "drop j items = items ! j # drop (Suc j) items"
      by (simp add: Cons_nth_drop_Suc)
    have c: "(percent (items ! j) \<noteq> percent item \<or> remainder (items ! j) \<noteq> remainder item)
        = (\<not> same_key item (items ! j))"
      by (auto simp: same_key_def)
    show ?thesis
    proof (cases "same_key item (items ! j)")
      case True
      with 1 \<open>j < length items\<close> d c show ?thesis
        by (subst group_end.simps) simp
    next
      case False
      with \<open>j < length items\<close> d c show ?thesis
        by (subst group_end.simps) simp
    qed
  next
    case False
    with 1 show ?thesis
      by (subst group_end.simps) simp
  qed
qed

lemma increment_range_eq:
  "i \<le> j \<Longrightarrow> j \<le> length items \<Longrightarrow>
   increment_range items i j = take i items @ map incr (take (j - i) (drop i items)) @ drop j items"
proof (induction items i j rule: increment_range.induct)
  case (1 items i j)
  show ?case
  proof (cases "i < j")
    case True
    let ?items' = "items[i := (items ! i)\<lparr>percent := percent (items ! i) + 1\<rparr>]"
    from True 1 have il: "i < length items" by simp
    have ih: "increment_range ?items' (i + 1) j =
        take (i + 1) ?items' @ map incr (take (j - (i + 1)) (drop (i + 1) ?items')) @ drop j ?items'"
      using 1 True il by simp
    have t: "take (i + 1) ?items' = take i items @ [incr (items ! i)]"
      using il by (simp add: take_Suc_conv_app_nth incr_def)
    have d1: "drop (i + 1) ?items' = drop (i + 1) items" by simp
    have d2: "drop j ?items' = drop j items" using True by simp
    have g: "take (j - i) (drop i items) = items ! i # take (j - (i + 1)) (drop (i + 1) items)"
    proof -
      have "drop i items = items ! i # drop (i + 1) items"
        using il by (simp add: Cons_nth_drop_Suc)
      moreover have "j - i = Suc (j - (i + 1))" using True by simp
      ultimately show ?thesis by simp
    qed
    have "increment_range items i j = increment_range ?items' (i + 1) j"
      using True il by (subst increment_range.simps) simp
    then show ?thesis
      by (simp only: ih t d1 d2 g) simp
  next
    case False
    with 1 have "i = j" by simp
    then show ?thesis
      by (subst increment_range.simps) simp
  qed
qed

lemma adjust_loop_walk_runs:
  "i \<le> length items \<Longrightarrow> adjust_loop items i left = take i items @ walk_runs (drop i items) left"
proof (induction items i left rule: adjust_loop.induct)
  case (1 items i left)
  show ?case
  proof (cases "i < length items")
    case False
    with 1 show ?thesis by (subst adjust_loop.simps) simp
  next
    case True
    define item where "item = items ! i"
    define tl where "tl = drop (i + 1) items"
    define j where "j = group_end items item (i + 1)"
    define g where "g = item # takeWhile (same_key item) tl"
    have d: "drop i items = item # tl"
      using True by (simp add: Cons_nth_drop_Suc item_def tl_def)
    have j: "j = i + length g"
      using True by (simp add: j_def g_def tl_def group_end_takeWhile)
    have jl: "j \<le> length items"
      using True by (simp add: j_def group_end_le)
    have ij: "i \<le> j" using j by simp
    have gt: "take (j - i) (drop i items) = g"
      by (simp add: d j g_def takeWhile_eq_take[symmetric])
    have dj: "drop j items = dropWhile (same_key item) tl"
    proof -
      have "drop j items = drop (length g) (drop i items)"
        by (simp add: j add.commute)
      also have "\<dots> = drop (length (takeWhile (same_key item) tl)) tl"
        by (simp add: d g_def)
      also have "\<dots> = dropWhile (same_key item) tl"
        by (simp add: dropWhile_eq_drop)
      finally show ?thesis .
    qed
    have eq: "int j - int i = int (length g)" using j by simp
    have unfold: "adjust_loop items i left =
        (if int (length g) \<le> left
         then adjust_loop (increment_range items i j) j (left - int (length g))
         else adjust_loop items j left)"
    proof -
      have j2: "group_end items (items ! i) (Suc i) = j" by (simp add: j_def item_def)
      show ?thesis
        using True by (subst adjust_loop.simps) (simp add: Let_def j2 eq)
    qed
    show ?thesis
    proof (cases "int (length g) \<le> left")
      case fits: True
      let ?items' = "increment_range items i j"
      have inc: "?items' = take i items @ map incr g @ drop j items"
        using ij jl by (simp add: increment_range_eq gt)
      have li: "length (take i items) = i" using True by simp
      have len: "length (take i items @ map incr g) = j"
        using li by (simp add: j)
      have inc': "?items' = (take i items @ map incr g) @ drop j items"
        by (simp add: inc)
      have tj: "take j ?items' = take i items @ map incr g"
        using inc' len by (metis append_eq_conv_conj)
      have dj': "drop j ?items' = drop j items"
        using inc' len by (metis append_eq_conv_conj)
      have "adjust_loop ?items' j (left - int (length g)) =
          take j ?items' @ walk_runs (drop j ?items') (left - int (length g))"
        using 1(1)[OF True item_def j_def eq[symmetric]] fits jl
        by (simp add: eq length_increment_range)
      then show ?thesis
        using fits by (simp add: unfold tj dj' dj d g_def Let_def)
    next
      case nofit: False
      have tj: "take j items = take i items @ g"
      proof -
        have "take j items = take i items @ take (j - i) (drop i items)"
          using ij by (metis add_diff_cancel_left' j take_add)
        then show ?thesis by (simp add: gt)
      qed
      have "adjust_loop items j left = take j items @ walk_runs (drop j items) left"
        using 1(2)[OF True item_def j_def eq[symmetric]] nofit jl by (simp add: eq)
      then show ?thesis
        using nofit by (simp add: unfold tj dj d g_def Let_def)
    qed
  qed
qed

lemma same_key_refl: "same_key x x"
  by (simp add: same_key_def)

lemma same_key_iff: "same_key a b \<longleftrightarrow> \<not> item_less a b \<and> \<not> item_less b a"
  by (auto simp: same_key_def item_less_def)

lemma same_key_pred: "same_key a b \<Longrightarrow> same_key a = same_key b"
  by (auto simp: same_key_def fun_eq_iff)

lemma item_less_same_key: "same_key x b \<Longrightarrow> \<not> same_key x a \<Longrightarrow> \<not> item_less a x \<Longrightarrow> item_less b a"
  by (auto simp: same_key_def item_less_def split: if_splits)

lemma sorted_no_later_same_key:
  assumes "item_sorted (x # a # xs)" and "\<not> same_key x a" and "b \<in> set xs"
  shows "\<not> same_key x b"
proof
  assume "same_key x b"
  moreover from assms have "\<not> item_less a x" and "\<not> item_less b a" by auto
  ultimately show False using assms(2) item_less_same_key by blast
qed

lemma sorted_takeWhile_filter:
  "item_sorted (x # xs) \<Longrightarrow> takeWhile (same_key x) xs = filter (same_key x) xs"
proof (induction xs)
  case Nil
  then show ?case by simp
next
  case (Cons a xs)
  show ?case
  proof (cases "same_key x a")
    case True
    with Cons show ?thesis by simp
  next
    case False
    have "\<forall>b\<in>set xs. \<not> same_key x b"
      using sorted_no_later_same_key[OF Cons.prems False] by blast
    then have "filter (same_key x) xs = []" by (simp add: filter_empty_conv)
    with False show ?thesis by simp
  qed
qed

lemma sorted_dropWhile_filter:
  "item_sorted (x # xs) \<Longrightarrow> dropWhile (same_key x) xs = filter (\<lambda>y. \<not> same_key x y) xs"
proof (induction xs)
  case Nil
  then show ?case by simp
next
  case (Cons a xs)
  show ?case
  proof (cases "same_key x a")
    case True
    with Cons show ?thesis by simp
  next
    case False
    have "\<forall>b\<in>set xs. \<not> same_key x b"
      using sorted_no_later_same_key[OF Cons.prems False] by blast
    then have "filter (\<lambda>y. \<not> same_key x y) xs = xs" by (simp add: filter_id_conv)
    with False show ?thesis by simp
  qed
qed

lemma walk_runs_groups:
  "item_sorted xs \<Longrightarrow> walk_runs xs left = spec_distribute_groups xs left"
proof (induction xs left rule: walk_runs.induct)
  case (1 left)
  show ?case by simp
next
  case (2 x xs left)
  have t: "takeWhile (same_key x) xs = filter (same_key x) xs"
    using 2(3) by (rule sorted_takeWhile_filter)
  have d: "dropWhile (same_key x) xs = filter (\<lambda>y. \<not> same_key x y) xs"
    using 2(3) by (rule sorted_dropWhile_filter)
  have s: "item_sorted (filter (\<lambda>y. \<not> same_key x y) xs)"
    using 2(3) by (simp add: sorted_wrt_filter)
  show ?case
  proof (cases "int (length (x # takeWhile (same_key x) xs)) \<le> left")
    case True
    with 2(1)[OF refl refl True] s show ?thesis
      by (simp add: t d Let_def)
  next
    case False
    with 2(2)[OF refl refl False] s show ?thesis
      by (simp add: t d Let_def)
  qed
qed

lemma incr_rel: "list_all2 (\<lambda>x y. y = x \<or> y = incr x) g (map incr g)"
  by (induction g) auto

lemma keep_rel: "list_all2 (\<lambda>x y. y = x \<or> y = incr x) g g"
  by (induction g) auto

lemma walk_runs_rel:
  "list_all2 (\<lambda>x y. y = x \<or> y = incr x) xs (walk_runs xs left)"
proof (induction xs left rule: walk_runs.induct)
  case (1 left)
  show ?case by simp
next
  case (2 x xs left)
  let ?g = "takeWhile (same_key x) xs" and ?r = "dropWhile (same_key x) xs"
  have xs: "x # xs = (x # ?g) @ ?r" by simp
  have g1: "list_all2 (\<lambda>x y. y = x \<or> y = incr x) (x # ?g) (map incr (x # ?g))"
    by (rule incr_rel)
  have g2: "list_all2 (\<lambda>x y. y = x \<or> y = incr x) (x # ?g) (x # ?g)"
    by (rule keep_rel)
  show ?case
  proof (cases "int (length (x # ?g)) \<le> left")
    case True
    have "list_all2 (\<lambda>x y. y = x \<or> y = incr x) ((x # ?g) @ ?r)
            (map incr (x # ?g) @ walk_runs ?r (left - int (length (x # ?g))))"
      using g1 2(1)[OF refl refl True] by (rule list_all2_appendI)
    with True show ?thesis by (simp add: Let_def)
  next
    case False
    have "list_all2 (\<lambda>x y. y = x \<or> y = incr x) ((x # ?g) @ ?r) ((x # ?g) @ walk_runs ?r left)"
      using g2 2(2)[OF refl refl False] by (rule list_all2_appendI)
    with False show ?thesis by (simp add: Let_def)
  qed
qed

lemma sum_percent_incr:
  "sum_list (map (percent \<circ> incr) g) = sum_list (map percent g) + int (length g)"
  by (induction g) (auto simp: incr_def)

lemma walk_runs_sum_lower:
  "sum_list (map percent xs) \<le> sum_list (map percent (walk_runs xs left))"
proof (induction xs left rule: walk_runs.induct)
  case (1 left)
  show ?case by simp
next
  case (2 x xs left)
  let ?g = "takeWhile (same_key x) xs" and ?r = "dropWhile (same_key x) xs"
  have xs: "sum_list (map percent (x # xs)) = sum_list (map percent (x # ?g)) + sum_list (map percent ?r)"
    by (metis append_Cons map_append sum_list.append takeWhile_dropWhile_id)
  show ?case
  proof (cases "int (length (x # ?g)) \<le> left")
    case True
    with 2(1)[OF refl refl True] show ?thesis
      unfolding xs by (simp add: Let_def sum_percent_incr incr_def)
  next
    case False
    with 2(2)[OF refl refl False] show ?thesis
      unfolding xs by (simp add: Let_def)
  qed
qed

lemma walk_runs_sum_upper:
  "0 \<le> left \<Longrightarrow> sum_list (map percent (walk_runs xs left)) \<le> sum_list (map percent xs) + left"
proof (induction xs left rule: walk_runs.induct)
  case (1 left)
  then show ?case by simp
next
  case (2 x xs left)
  let ?g = "takeWhile (same_key x) xs" and ?r = "dropWhile (same_key x) xs"
  have xs: "sum_list (map percent (x # xs)) = sum_list (map percent (x # ?g)) + sum_list (map percent ?r)"
    by (metis append_Cons map_append sum_list.append takeWhile_dropWhile_id)
  show ?case
  proof (cases "int (length (x # ?g)) \<le> left")
    case True
    then have "0 \<le> left - int (length (x # ?g))" by simp
    with 2(1)[OF refl refl True] True show ?thesis
      unfolding xs by (simp add: Let_def sum_percent_incr incr_def)
  next
    case False
    with 2(2)[OF refl refl False] 2(3) show ?thesis
      unfolding xs by (simp add: Let_def)
  qed
qed

lemma sorted_heads_same_key:
  assumes "item_sorted (x # xs)" and "item_sorted (y # ys)" and "mset (x # xs) = mset (y # ys)"
  shows "same_key x y"
proof -
  have irr: "\<not> item_less a a" for a by (simp add: item_less_def)
  have "y \<in> set (x # xs)" using assms(3) by (metis list.set_intros(1) mset_eq_setD)
  then have "y = x \<or> y \<in> set xs" by simp
  then have 1: "\<not> item_less y x" using assms(1) irr by auto
  have "x \<in> set (y # ys)" using assms(3) by (metis list.set_intros(1) mset_eq_setD)
  then have "x = y \<or> x \<in> set ys" by simp
  then have 2: "\<not> item_less x y" using assms(2) irr by auto
  from 1 2 show ?thesis by (simp add: same_key_iff)
qed

lemma groups_mset_cong:
  "item_sorted xs \<Longrightarrow> item_sorted ys \<Longrightarrow> mset xs = mset ys \<Longrightarrow>
   mset (spec_distribute_groups xs left) = mset (spec_distribute_groups ys left)"
proof (induction "length xs" arbitrary: xs ys left rule: less_induct)
  case less
  show ?case
  proof (cases xs)
    case Nil
    with less.prems show ?thesis by simp
  next
    case (Cons x xs')
    with less.prems obtain y ys' where ys: "ys = y # ys'" by (cases ys) auto
    have k: "same_key x y"
      using less.prems sorted_heads_same_key unfolding Cons ys by blast
    have p: "same_key y = same_key x" using same_key_pred[OF k] by simp
    have m: "mset (x # xs') = mset (y # ys')" using less.prems(3) Cons ys by simp
    define gx where "gx = x # filter (same_key x) xs'"
    define gy where "gy = y # filter (same_key x) ys'"
    define ox where "ox = filter (\<lambda>b. \<not> same_key x b) xs'"
    define oy where "oy = filter (\<lambda>b. \<not> same_key x b) ys'"
    have g: "mset gx = mset gy"
    proof -
      have "mset (filter (same_key x) (x # xs')) = mset (filter (same_key x) (y # ys'))"
        using m by (simp only: mset_filter)
      then show ?thesis using k by (simp add: same_key_refl gx_def gy_def)
    qed
    have o: "mset ox = mset oy"
    proof -
      have "mset (filter (\<lambda>b. \<not> same_key x b) (x # xs')) = mset (filter (\<lambda>b. \<not> same_key x b) (y # ys'))"
        using m by (simp only: mset_filter)
      then show ?thesis using k by (simp add: same_key_refl ox_def oy_def)
    qed
    have l: "length gx = length gy"
      using g by (metis size_mset)
    have s1: "item_sorted ox"
      using less.prems(1) Cons by (simp add: sorted_wrt_filter ox_def)
    have s2: "item_sorted oy"
      using less.prems(2) ys by (simp add: sorted_wrt_filter oy_def)
    have len: "length ox < length xs"
      using Cons by (simp add: less_Suc_eq_le ox_def)
    have ih: "mset (spec_distribute_groups ox l') = mset (spec_distribute_groups oy l')" for l'
      using less.hyps[OF len s1 s2 o] .
    have ex: "spec_distribute_groups xs left =
        (if int (length gx) \<le> left
         then map incr gx @ spec_distribute_groups ox (left - int (length gx))
         else gx @ spec_distribute_groups ox left)"
      unfolding Cons gx_def ox_def by (simp add: Let_def)
    have ey: "spec_distribute_groups ys left =
        (if int (length gy) \<le> left
         then map incr gy @ spec_distribute_groups oy (left - int (length gy))
         else gy @ spec_distribute_groups oy left)"
      unfolding ys gy_def oy_def by (simp add: Let_def p)
    show ?thesis
      unfolding ex ey by (simp add: l g ih)
  qed
qed

lemma length_write_back: "length (write_back zs r) = length r"
  by (induction zs arbitrary: r) auto

lemma write_back_other: "k \<notin> index ` set zs \<Longrightarrow> write_back zs r ! k = r ! k"
  by (induction zs arbitrary: r) auto

lemma write_back_at:
  "distinct (map index zs) \<Longrightarrow> z \<in> set zs \<Longrightarrow> index z < length r \<Longrightarrow>
   write_back zs r ! index z = percent z"
proof (induction zs arbitrary: r)
  case Nil
  then show ?case by simp
next
  case (Cons a zs)
  show ?case
  proof (cases "z = a")
    case True
    with Cons.prems show ?thesis by (simp add: write_back_other)
  next
    case False
    with Cons show ?thesis by simp
  qed
qed

lemma write_back_mset_cong:
  assumes "distinct (map index zs)" and "mset zs = mset zs'"
  shows "write_back zs r = write_back zs' r"
proof (rule nth_equalityI)
  show "length (write_back zs r) = length (write_back zs' r)"
    by (simp add: length_write_back)
next
  fix k assume "k < length (write_back zs r)"
  then have k: "k < length r" by (simp add: length_write_back)
  have d': "distinct (map index zs')"
    using assms by (metis mset_eq_imp_distinct_iff mset_map)
  have s: "set zs = set zs'" using assms(2) by (rule mset_eq_setD)
  show "write_back zs r ! k = write_back zs' r ! k"
  proof (cases "k \<in> index ` set zs")
    case True
    then obtain z where z: "z \<in> set zs" and kz: "k = index z" by auto
    have "write_back zs r ! index z = percent z"
      using assms(1) z k unfolding kz by (rule write_back_at)
    moreover have "write_back zs' r ! index z = percent z"
      using d' z k unfolding kz s by (rule write_back_at)
    ultimately show ?thesis unfolding kz by simp
  next
    case False
    then show ?thesis using s by (simp add: write_back_other)
  qed
qed

lemma walk_runs_index: "map index (walk_runs xs left) = map index xs"
proof -
  have "list_all2 (\<lambda>x y. index y = index x) xs (walk_runs xs left)"
    using walk_runs_rel[of xs left] by (rule list_all2_mono) (auto simp: incr_def)
  then show ?thesis
    by (induction rule: list_all2_induct) auto
qed

lemma fill_items_Inr:
  "fill_items votes tot idx left = Inr (items, l) \<Longrightarrow>
   items = map2 (base_item tot) [idx..<idx + length votes] votes \<and>
   l = left - sum_list (map (\<lambda>v. trunc_div (v * 100) tot) votes)"
proof (induction votes arbitrary: idx left items l)
  case Nil
  then show ?case by simp
next
  case (Cons v vs)
  from Cons.prems obtain items' where
    r: "fill_items vs tot (idx + 1) (left - trunc_div (v * 100) tot) = Inr (items', l)"
    and i: "items = base_item tot idx v # items'"
    by (auto simp: Let_def base_item_def split: if_splits sum.splits)
  have u: "[idx..<idx + length (v # vs)] = idx # [idx + 1..<idx + 1 + length vs]"
    by (subst upt_rec) simp
  from Cons.IH[OF r] show ?case
    unfolding u by (simp add: i)
qed

lemma trunc_div_nonneg: "0 \<le> a \<Longrightarrow> 0 < b \<Longrightarrow> trunc_div a b = a div b"
  by (cases "a = 0") (simp_all add: trunc_div_def)

lemma fill_items_nonneg:
  "0 < tot \<Longrightarrow> \<forall>v\<in>set votes. 0 \<le> v \<and> v * 100 \<le> INT_MAX \<Longrightarrow> left \<le> INT_MAX \<Longrightarrow>
   INT_MIN \<le> left - sum_list (map (\<lambda>v. v * 100 div tot) votes) \<Longrightarrow>
   fill_items votes tot idx left =
     Inr (map2 (base_item tot) [idx..<idx + length votes] votes,
          left - sum_list (map (\<lambda>v. v * 100 div tot) votes))"
proof (induction votes arbitrary: idx left)
  case Nil
  then show ?case by simp
next
  case (Cons v vs)
  let ?p = "v * 100 div tot"
  have v: "0 \<le> v" "v * 100 \<le> INT_MAX" using Cons.prems(2) by auto
  have p: "trunc_div (v * 100) tot = ?p" using v Cons.prems(1) by (simp add: trunc_div_nonneg)
  have p0: "0 \<le> ?p" using v Cons.prems(1) by (simp add: pos_imp_zdiv_nonneg_iff)
  have s0: "0 \<le> sum_list (map (\<lambda>v. v * 100 div tot) vs)"
    using Cons.prems(1,2) by (auto intro!: sum_list_nonneg simp: pos_imp_zdiv_nonneg_iff)
  have f1: "fits_int (v * 100)" using v by (simp add: fits_int_def INT_MIN_def)
  have f2: "fits_int (left - ?p)"
    using Cons.prems(3,4) p0 s0 by (simp add: fits_int_def)
  have u: "[idx..<idx + length (v # vs)] = idx # [idx + 1..<idx + 1 + length vs]"
    by (subst upt_rec) simp
  have ih: "fill_items vs tot (idx + 1) (left - ?p) =
      Inr (map2 (base_item tot) [idx + 1..<idx + 1 + length vs] vs,
           left - ?p - sum_list (map (\<lambda>v. v * 100 div tot) vs))"
    using Cons.prems p0 by (intro Cons.IH) auto
  show ?case
    unfolding u using f1 f2 Cons.prems(1) ih
    by (simp add: p Let_def base_item_def)
qed

lemma AdjustPercentCount_walk_runs:
  "AdjustPercentCount srt items left = walk_runs (srt items) left"
  by (simp add: AdjustPercentCount_def adjust_loop_walk_runs)

lemma adjust_write_back_indep:
  assumes "sorts_items srt1" and "sorts_items srt2" and "distinct (map index items)"
  shows "write_back (AdjustPercentCount srt1 items left) result =
         write_back (AdjustPercentCount srt2 items left) result"
proof -
  have s1: "item_sorted (srt1 items)" and m1: "mset (srt1 items) = mset items"
    using assms(1) by (simp_all add: sorts_items_def)
  have s2: "item_sorted (srt2 items)" and m2: "mset (srt2 items) = mset items"
    using assms(2) by (simp_all add: sorts_items_def)
  have "distinct (map index (srt1 items))"
    using assms(3) m1 by (metis mset_eq_imp_distinct_iff mset_map)
  then have d: "distinct (map index (walk_runs (srt1 items) left))"
    by (simp add: walk_runs_index)
  have "mset (spec_distribute_groups (srt1 items) left) =
      mset (spec_distribute_groups (srt2 items) left)"
    using s1 s2 by (rule groups_mset_cong) (simp add: m1 m2)
  then have "mset (walk_runs (srt1 items) left) = mset (walk_runs (srt2 items) left)"
    using s1 s2 by (simp add: walk_runs_groups)
  with d show ?thesis
    unfolding AdjustPercentCount_walk_runs by (rule write_back_mset_cong)
qed

lemma fill_items_index:
  "fill_items votes tot idx left = Inr (items, l) \<Longrightarrow> map index items = [idx..<idx + length votes]"
proof -
  assume "fill_items votes tot idx left = Inr (items, l)"
  then have "items = map2 (base_item tot) [idx..<idx + length votes] votes"
    by (rule fill_items_Inr[THEN conjunct1])
  moreover have "map index (map2 (base_item tot) is vs) = is" if "length is = length vs" for "is" vs
    using that by (induction "is" vs rule: list_induct2) (auto simp: base_item_def)
  ultimately show ?thesis by simp
qed

lemma set_insert_item: "set (insert_item x ys) = insert x (set ys)"
  by (induction ys) auto

lemma mset_insert_item: "mset (insert_item x ys) = add_mset x (mset ys)"
  by (induction ys) auto

lemma item_le_trans: "\<not> item_less b a \<Longrightarrow> \<not> item_less c b \<Longrightarrow> \<not> item_less c a"
  by (auto simp: item_less_def split: if_splits)

lemma item_less_asym: "item_less a b \<Longrightarrow> \<not> item_less b a"
  by (auto simp: item_less_def split: if_splits)

lemma sorted_insert_item: "item_sorted ys \<Longrightarrow> item_sorted (insert_item x ys)"
proof (induction ys)
  case Nil
  then show ?case by simp
next
  case (Cons y ys)
  show ?case
  proof (cases "item_less y x")
    case True
    then have "\<not> item_less x y" by (rule item_less_asym)
    with True Cons show ?thesis
      by (simp add: set_insert_item)
  next
    case False
    have "\<not> item_less b x" if "b \<in> set ys" for b
    proof -
      have "\<not> item_less b y" using Cons.prems that by simp
      with False show ?thesis by (rule item_le_trans)
    qed
    then have "\<forall>b\<in>set ys. \<not> item_less b x" by blast
    with False Cons.prems show ?thesis by simp
  qed
qed

lemma sorts_items_sort_items: "sorts_items sort_items"
proof -
  have "mset (sort_items xs) = mset xs \<and> item_sorted (sort_items xs)" for xs
    by (induction xs) (auto simp: mset_insert_item sorted_insert_item)
  then show ?thesis by (simp add: sorts_items_def)
qed

lemma sorts_items_sort_items_rev: "sorts_items sort_items_rev"
  using sorts_items_sort_items by (simp add: sorts_items_def sort_items_rev_def)

lemma write_back_in_order:
  assumes "map index zs = [0..<length zs]" and "length zs \<le> length r"
  shows "write_back zs r = map percent zs @ drop (length zs) r"
proof (rule nth_equalityI)
  show "length (write_back zs r) = length (map percent zs @ drop (length zs) r)"
    using assms(2) by (simp add: length_write_back)
next
  fix k assume "k < length (write_back zs r)"
  then have k: "k < length r" by (simp add: length_write_back)
  have d: "distinct (map index zs)" using assms(1) by simp
  have ix: "index (zs ! i) = i" if "i < length zs" for i
    using that arg_cong[OF assms(1), of "\<lambda>l. l ! i"] by simp
  show "write_back zs r ! k = (map percent zs @ drop (length zs) r) ! k"
  proof (cases "k < length zs")
    case True
    have "write_back zs r ! index (zs ! k) = percent (zs ! k)"
      using d True k ix by (intro write_back_at) auto
    then show ?thesis using True ix by (simp add: nth_append)
  next
    case False
    have "set (map index zs) = {0..<length zs}"
      by (simp only: assms(1) set_upt)
    then have "index ` set zs = {0..<length zs}" by simp
    then have "k \<notin> index ` set zs" using False by simp
    then show ?thesis using False k by (simp add: write_back_other nth_append)
  qed
qed

lemma write_back_perm:
  assumes "mset (map index zs) = mset [0..<n]" and "n \<le> length r"
  shows "write_back zs r = map percent (sort_key index zs) @ drop n r"
proof -
  have "size (mset (map index zs)) = size (mset [0..<n])" by (simp only: assms(1))
  then have n: "length zs = n" by simp
  have d: "distinct (map index zs)"
    using assms(1) by (metis distinct_upt mset_eq_imp_distinct_iff)
  have ms: "mset (map index (sort_key index zs)) = mset (map index zs)" by simp
  have "sorted (map index (sort_key index zs))" by (rule sorted_sort_key)
  moreover have "distinct (map index (sort_key index zs))"
    using d ms by (metis mset_eq_imp_distinct_iff)
  moreover have "set (map index (sort_key index zs)) = set [0..<n]"
    using ms assms(1) by (metis mset_eq_setD)
  ultimately have o: "map index (sort_key index zs) = [0..<n]"
    by (metis distinct_upt sorted_distinct_set_unique sorted_upt)
  have "write_back zs r = write_back (sort_key index zs) r"
    using d by (intro write_back_mset_cong) simp_all
  also have "\<dots> = map percent (sort_key index zs) @ drop (length (sort_key index zs)) r"
    using o n assms(2) by (intro write_back_in_order) simp_all
  finally show ?thesis using n by simp
qed

lemma sort_key_index_upt:
  assumes "mset (map index zs) = mset [0..<n]"
  shows "map index (sort_key index zs) = [0..<n]"
proof -
  have d: "distinct (map index zs)"
    using assms by (metis distinct_upt mset_eq_imp_distinct_iff)
  have ms: "mset (map index (sort_key index zs)) = mset (map index zs)" by simp
  have "sorted (map index (sort_key index zs))" by (rule sorted_sort_key)
  moreover have "distinct (map index (sort_key index zs))"
    using d ms by (metis mset_eq_imp_distinct_iff)
  moreover have "set (map index (sort_key index zs)) = set [0..<n]"
    using ms assms by (metis mset_eq_setD)
  ultimately show ?thesis
    by (metis distinct_upt sorted_distinct_set_unique sorted_upt)
qed

lemma walk_runs_set:
  assumes "z \<in> set (walk_runs ys left)"
  shows "\<exists>y\<in>set ys. z = y \<or> z = incr y"
proof -
  have r: "list_all2 (\<lambda>x y. y = x \<or> y = incr x) ys (walk_runs ys left)"
    by (rule walk_runs_rel)
  from assms obtain k where k: "k < length (walk_runs ys left)" "z = walk_runs ys left ! k"
    by (auto simp: in_set_conv_nth)
  have l: "length ys = length (walk_runs ys left)" using r by (rule list_all2_lengthD)
  have "z = ys ! k \<or> z = incr (ys ! k)"
    using list_all2_nthD[OF r, of k] k l by simp
  moreover have "ys ! k \<in> set ys" using k l by simp
  ultimately show ?thesis by blast
qed

lemma sum_floor_base_items:
  "length is = length vs \<Longrightarrow> \<forall>v\<in>set vs. 0 \<le> v \<Longrightarrow> 0 < tot \<Longrightarrow>
   sum_list (map percent (map2 (base_item tot) is vs)) = sum_list (map (\<lambda>v. v * 100 div tot) vs)"
  by (induction "is" vs rule: list_induct2) (auto simp: base_item_def trunc_div_nonneg)

lemma base_items_nth:
  "i < length vs \<Longrightarrow> map2 (base_item tot) [0..<length vs] vs ! i = base_item tot i (vs ! i)"
  by simp

lemma sum_percent_mset: "mset xs = mset ys \<Longrightarrow> sum_list (map percent xs) = sum_list (map percent ys)"
  by (metis mset_map sum_mset_sum_list)

lemma CountNicePercent_shape:
  assumes srt: "sorts_items srt"
    and kmax: "length votes \<le> kMaxOptions"
    and res: "length votes \<le> length result"
    and nonneg: "\<forall>v\<in>set votes. 0 \<le> v \<and> v * 100 \<le> INT_MAX"
    and tot: "0 < tot"
    and low: "INT_MIN \<le> 100 - sum_list (map (\<lambda>v. v * 100 div tot) votes)"
  shows "\<exists>r. CountNicePercent srt kMaxOptions votes tot result = Inr r
           \<and> length r = length result
           \<and> drop (length votes) r = drop (length votes) result
           \<and> (\<forall>i<length votes. r ! i = votes ! i * 100 div tot \<or> r ! i = votes ! i * 100 div tot + 1)
           \<and> sum_list (map (\<lambda>v. v * 100 div tot) votes) \<le> sum_list (take (length votes) r)
           \<and> sum_list (take (length votes) r)
               \<le> sum_list (map (\<lambda>v. v * 100 div tot) votes)
                 + max 0 (100 - sum_list (map (\<lambda>v. v * 100 div tot) votes))"
proof -
  define n where "n = length votes"
  define sf where "sf = sum_list (map (\<lambda>v. v * 100 div tot) votes)"
  define left where "left = 100 - sf"
  define items where "items = map2 (base_item tot) [0..<n] votes"
  define ws where "ws = (if 0 < left \<and> left \<le> int n then AdjustPercentCount srt items left else items)"
  define zs where "zs = sort_key index ws"
  have fill: "fill_items votes tot 0 100 = Inr (items, left)"
    using fill_items_nonneg[OF tot nonneg, of 100 0] low
    by (simp add: INT_MAX_def items_def left_def sf_def n_def)
  have cnp: "CountNicePercent srt kMaxOptions votes tot result = Inr (write_back ws result)"
    using kmax res by (simp add: CountNicePercent_def fill ws_def n_def)
  have idx_items: "map index items = [0..<n]"
    using fill_items_index[OF fill] by (simp add: n_def)
  have ms: "mset (srt items) = mset items" using srt by (simp add: sorts_items_def)
  have set_srt: "set (srt items) = set items" using ms by (rule mset_eq_setD)
  have no_adjust: "ws = items" if "\<not> (0 < left \<and> left \<le> int n)"
    unfolding ws_def using that by (rule if_not_P)
  have idx_ws: "mset (map index ws) = mset [0..<n]"
  proof (cases "0 < left \<and> left \<le> int n")
    case True
    then have "map index ws = map index (srt items)"
      by (simp add: ws_def AdjustPercentCount_walk_runs walk_runs_index)
    then have "mset (map index ws) = mset (map index items)"
      using ms by (metis mset_map)
    then show ?thesis by (simp only: idx_items)
  next
    case False
    show ?thesis by (simp only: no_adjust[OF False] idx_items)
  qed
  have wb: "write_back ws result = map percent zs @ drop n result"
    unfolding zs_def using idx_ws res[folded n_def] by (rule write_back_perm)
  have idx_zs: "map index zs = [0..<n]"
    unfolding zs_def using idx_ws by (rule sort_key_index_upt)
  have len_zs: "length zs = n"
    using arg_cong[OF idx_zs, of length] by simp
  have set_zs: "set zs = set ws" by (simp add: zs_def)
  have from_items: "\<exists>y\<in>set items. z = y \<or> z = incr y" if "z \<in> set ws" for z
  proof (cases "0 < left \<and> left \<le> int n")
    case True
    then have "z \<in> set (walk_runs (srt items) left)"
      using that by (simp add: ws_def AdjustPercentCount_walk_runs)
    then show ?thesis using walk_runs_set set_srt by blast
  next
    case False
    show ?thesis using that by (simp only: no_adjust[OF False]) blast
  qed
  have item_at: "y = base_item tot (index y) (votes ! index y) \<and> index y < n" if "y \<in> set items" for y
  proof -
    have li: "length items = n" by (simp add: items_def n_def)
    from that obtain k where k: "k < n" "y = items ! k"
      by (auto simp: in_set_conv_nth li)
    have "items ! k = base_item tot k (votes ! k)"
      using k(1) by (simp add: items_def n_def)
    then show ?thesis using k by (simp add: base_item_def)
  qed
  have each: "percent (zs ! i) = votes ! i * 100 div tot \<or> percent (zs ! i) = votes ! i * 100 div tot + 1"
    if "i < n" for i
  proof -
    have iz: "index (zs ! i) = i"
      using that len_zs arg_cong[OF idx_zs, of "\<lambda>l. l ! i"] by simp
    have "zs ! i \<in> set ws" using that len_zs set_zs by (metis nth_mem)
    then obtain y where y: "y \<in> set items" "zs ! i = y \<or> zs ! i = incr y"
      using from_items by blast
    have iy: "index y = i" using y(2) iz by (auto simp: incr_def)
    have v: "0 \<le> votes ! i" using nonneg that by (simp add: n_def)
    have "percent y = votes ! i * 100 div tot"
      using item_at[OF y(1)] iy v tot
      by (metis PercentCounterItem.select_convs(2) base_item_def mult_nonneg_nonneg trunc_div_nonneg zero_le_numeral)
    then show ?thesis using y(2) by (auto simp: incr_def)
  qed
  have sum_items: "sum_list (map percent items) = sf"
    unfolding items_def sf_def using nonneg tot
    by (intro sum_floor_base_items) (auto simp: n_def)
  have sum_zs: "sum_list (map percent zs) = sum_list (map percent ws)"
    by (rule sum_percent_mset) (simp add: zs_def)
  have sum_srt: "sum_list (map percent (srt items)) = sf"
    using sum_percent_mset[OF ms] sum_items by simp
  have lower: "sf \<le> sum_list (map percent ws)"
  proof (cases "0 < left \<and> left \<le> int n")
    case True
    then show ?thesis
      using walk_runs_sum_lower[of "srt items" left] sum_srt
      by (simp add: ws_def AdjustPercentCount_walk_runs)
  next
    case False
    show ?thesis by (simp add: no_adjust[OF False] sum_items)
  qed
  have upper: "sum_list (map percent ws) \<le> sf + max 0 left"
  proof (cases "0 < left \<and> left \<le> int n")
    case True
    then have "0 \<le> left" by simp
    from walk_runs_sum_upper[OF this, of "srt items"] True show ?thesis
      using sum_srt by (simp add: ws_def AdjustPercentCount_walk_runs)
  next
    case False
    show ?thesis by (simp add: no_adjust[OF False] sum_items)
  qed
  let ?r = "map percent zs @ drop n result"
  have 1: "length ?r = length result" using len_zs res by (simp add: n_def)
  have 2: "drop n ?r = drop n result" using len_zs by simp
  have 3: "\<forall>i<n. ?r ! i = votes ! i * 100 div tot \<or> ?r ! i = votes ! i * 100 div tot + 1"
    using each len_zs by (simp add: nth_append)
  have 4: "take n ?r = map percent zs" using len_zs by simp
  have 5: "sf \<le> sum_list (take n ?r)" using lower by (simp only: 4 sum_zs)
  have 6: "sum_list (take n ?r) \<le> sf + max 0 (100 - sf)"
    using upper by (simp only: 4 sum_zs left_def)
  have 0: "CountNicePercent srt kMaxOptions votes tot result = Inr ?r"
    by (simp only: cnp wb)
  show ?thesis
    using 0 1 2 3 5 6 unfolding n_def sf_def by blast
qed

lemma floor_mult_le: "0 < (b::int) \<Longrightarrow> a div b * b \<le> a"
proof -
  assume b: "0 < b"
  have "a = a div b * b + a mod b" by simp
  moreover have "0 \<le> a mod b" using b by simp
  ultimately show ?thesis by linarith
qed

lemma floor_mult_ge: "0 < (b::int) \<Longrightarrow> a \<le> a div b * b + (b - 1)"
proof -
  assume b: "0 < b"
  have "a = a div b * b + a mod b" by simp
  moreover have "a mod b \<le> b - 1" using b pos_mod_bound[of b a] by simp
  ultimately show ?thesis by linarith
qed

lemma sum_floor_le:
  "0 < (tot::int) \<Longrightarrow> sum_list (map (\<lambda>v. v * 100 div tot) vs) * tot \<le> sum_list vs * 100"
proof (induction vs)
  case Nil
  show ?case by simp
next
  case (Cons v vs)
  have "v * 100 div tot * tot \<le> v * 100" using Cons.prems by (rule floor_mult_le)
  with Cons show ?case by (simp add: algebra_simps)
qed

lemma sum_floor_ge:
  "0 < (tot::int) \<Longrightarrow>
   sum_list vs * 100 \<le> sum_list (map (\<lambda>v. v * 100 div tot) vs) * tot + int (length vs) * (tot - 1)"
proof (induction vs)
  case Nil
  show ?case by simp
next
  case (Cons v vs)
  have "v * 100 \<le> v * 100 div tot * tot + (tot - 1)" using Cons.prems by (rule floor_mult_ge)
  with Cons show ?case by (simp add: algebra_simps)
qed

lemma sum_floor_le_100:
  assumes "0 < (tot::int)" and "sum_list vs \<le> tot"
  shows "sum_list (map (\<lambda>v. v * 100 div tot) vs) \<le> 100"
proof -
  have "sum_list (map (\<lambda>v. v * 100 div tot) vs) * tot \<le> sum_list vs * 100"
    using assms(1) by (rule sum_floor_le)
  also have "\<dots> \<le> tot * 100" using assms(2) by simp
  finally have "sum_list (map (\<lambda>v. v * 100 div tot) vs) * tot \<le> 100 * tot" by (simp add: mult.commute)
  then show ?thesis using assms(1) by simp
qed

lemma sum_floor_gt:
  assumes "0 < (tot::int)" and "sum_list vs = tot"
  shows "100 - int (length vs) < sum_list (map (\<lambda>v. v * 100 div tot) vs)"
proof -
  let ?sf = "sum_list (map (\<lambda>v. v * 100 div tot) vs)"
  have n: "0 < length vs" using assms by (cases vs) auto
  have "tot * 100 \<le> ?sf * tot + int (length vs) * (tot - 1)"
    using sum_floor_ge[OF assms(1), of vs] assms(2) by simp
  also have "\<dots> < ?sf * tot + int (length vs) * tot"
    using n by (simp add: algebra_simps)
  finally have "100 * tot < (?sf + int (length vs)) * tot" by (simp add: algebra_simps)
  then have "100 < ?sf + int (length vs)" using assms(1) by simp
  then show ?thesis by simp
qed

lemma member_le_sum_list_int:
  "\<forall>x\<in>set xs. (0::int) \<le> x \<Longrightarrow> y \<in> set xs \<Longrightarrow> y \<le> sum_list xs"
proof (induction xs)
  case Nil
  then show ?case by simp
next
  case (Cons a xs)
  have "0 \<le> sum_list xs" using Cons.prems(1) by (simp add: sum_list_nonneg)
  with Cons show ?case by auto
qed

text \<open>
  The operations of the allocator that the model does not guard cannot overflow: on
  every item that the first loop writes, \<open>percent * total\<close> and the remainder fit
  \<open>int\<close>, and the percent is below the largest \<open>int\<close>, so \<open>++percent\<close> fits too.
\<close>

lemma trunc_div_abs: "\<bar>trunc_div a b\<bar> = (\<bar>a\<bar> div \<bar>b\<bar>)"
proof (cases "a = 0 \<or> b = 0")
  case True
  then show ?thesis by (auto simp: trunc_div_def)
next
  case False
  then have "\<bar>sgn a * sgn b\<bar> = 1" by (simp add: abs_mult)
  moreover have "0 \<le> \<bar>a\<bar> div \<bar>b\<bar>" by (simp add: div_int_pos_iff)
  ultimately show ?thesis
    by (simp add: trunc_div_def abs_mult)
qed

lemma trunc_div_mult: "trunc_div a b * b = sgn a * (\<bar>a\<bar> div \<bar>b\<bar> * \<bar>b\<bar>)"
proof -
  have "sgn b * b = \<bar>b\<bar>" by (simp add: abs_sgn mult.commute)
  then have "trunc_div a b * b = sgn a * (\<bar>a\<bar> div \<bar>b\<bar>) * \<bar>b\<bar>"
    by (simp add: trunc_div_def algebra_simps)
  then show ?thesis by (simp add: algebra_simps)
qed

lemma trunc_div_bounds:
  assumes "b \<noteq> 0"
  shows "\<bar>trunc_div a b\<bar> \<le> \<bar>a\<bar>"
    and "\<bar>trunc_div a b * b\<bar> \<le> \<bar>a\<bar>"
    and "\<bar>a - trunc_div a b * b\<bar> \<le> \<bar>a\<bar>"
proof -
  have b: "0 < \<bar>b\<bar>" using assms by simp
  have q: "0 \<le> \<bar>a\<bar> div \<bar>b\<bar>" by (simp add: div_int_pos_iff)
  have m: "\<bar>a\<bar> div \<bar>b\<bar> * \<bar>b\<bar> \<le> \<bar>a\<bar>" using b by (rule floor_mult_le)
  have "\<bar>a\<bar> div \<bar>b\<bar> * 1 \<le> \<bar>a\<bar> div \<bar>b\<bar> * \<bar>b\<bar>"
    using q b by (intro mult_left_mono) simp_all
  with m show 1: "\<bar>trunc_div a b\<bar> \<le> \<bar>a\<bar>" by (simp add: trunc_div_abs)
  have s: "\<bar>sgn a * x\<bar> \<le> \<bar>x\<bar>" for x :: int
    by (cases "a = 0") (simp_all add: abs_mult)
  have m0: "0 \<le> \<bar>a\<bar> div \<bar>b\<bar> * \<bar>b\<bar>" using q by simp
  show "\<bar>trunc_div a b * b\<bar> \<le> \<bar>a\<bar>"
    unfolding trunc_div_mult using s[of "\<bar>a\<bar> div \<bar>b\<bar> * \<bar>b\<bar>"] m m0 by simp
  have "a - trunc_div a b * b = sgn a * (\<bar>a\<bar> - \<bar>a\<bar> div \<bar>b\<bar> * \<bar>b\<bar>)"
    unfolding trunc_div_mult by (simp add: algebra_simps abs_sgn mult.commute)
  then have "\<bar>a - trunc_div a b * b\<bar> \<le> \<bar>\<bar>a\<bar> - \<bar>a\<bar> div \<bar>b\<bar> * \<bar>b\<bar>\<bar>"
    using s by simp
  also have "\<dots> \<le> \<bar>a\<bar>" using m m0 by simp
  finally show "\<bar>a - trunc_div a b * b\<bar> \<le> \<bar>a\<bar>" .
qed

lemma fill_items_no_overflow:
  "fill_items votes tot idx left = Inr (items, l) \<Longrightarrow>
   \<forall>x\<in>set items. percent x < INT_MAX \<and> fits_int (percent x)
     \<and> fits_int (percent x * tot) \<and> fits_int (remainder x)"
proof (induction votes arbitrary: idx left items l)
  case Nil
  then show ?case by simp
next
  case (Cons v vs)
  let ?a = "v * 100"
  from Cons.prems obtain items' where
    r: "fill_items vs tot (idx + 1) (left - trunc_div ?a tot) = Inr (items', l)"
    and i: "items = \<lparr>index = idx, percent = trunc_div ?a tot,
                     remainder = ?a - trunc_div ?a tot * tot\<rparr> # items'"
    and f: "fits_int ?a" and t: "tot \<noteq> 0"
    by (auto simp: Let_def split: if_splits sum.splits)
  have a: "\<bar>?a\<bar> \<le> 2147483600"
    using f by (simp add: fits_int_def INT_MAX_def INT_MIN_def) arith
  from trunc_div_bounds[OF t, of ?a] a
  have "\<bar>trunc_div ?a tot\<bar> \<le> 2147483600" "\<bar>trunc_div ?a tot * tot\<bar> \<le> 2147483600"
    "\<bar>?a - trunc_div ?a tot * tot\<bar> \<le> 2147483600"
    by linarith+
  then have "trunc_div ?a tot < INT_MAX \<and> fits_int (trunc_div ?a tot)
     \<and> fits_int (trunc_div ?a tot * tot) \<and> fits_int (?a - trunc_div ?a tot * tot)"
    unfolding fits_int_def INT_MAX_def INT_MIN_def by linarith
  with Cons.IH[OF r] show ?case by (simp add: i)
qed

lemma CountNicePercent_sort_indep:
  assumes "sorts_items srt1" and "sorts_items srt2"
  shows "CountNicePercent srt1 kMaxOptions votes tot result =
         CountNicePercent srt2 kMaxOptions votes tot result"
proof (cases "fill_items votes tot 0 100")
  case (Inl e)
  then show ?thesis by (simp add: CountNicePercent_def)
next
  case (Inr p)
  obtain items left where p: "p = (items, left)" by (cases p)
  have "map index items = [0..<0 + length votes]"
    using Inr unfolding p by (rule fill_items_index)
  then have "distinct (map index items)" by simp
  then have "write_back (AdjustPercentCount srt1 items left) result =
      write_back (AdjustPercentCount srt2 items left) result"
    by (rule adjust_write_back_indep[OF assms])
  then show ?thesis by (simp add: CountNicePercent_def Inr p)
qed

section \<open>The claims about the allocator\<close>

lemmas allocator_eval =
  CountNicePercent_def AdjustPercentCount_def fits_int_def INT_MAX_def INT_MIN_def
  trunc_div_def item_less_def adjust_loop.simps group_end.simps increment_range.simps
  sort_items_rev_def

text \<open>
  C3. In the deficit-distribution step every maximal group of options with equal
  percent and remainder is treated atomically: a group that fits within the remaining
  deficit has every member incremented by one and reduces the deficit by its size; any
  other group has no member incremented, and processing continues with the next group.
  With any sorting routine that meets the contract of \<open>ranges::sort\<close>,
  \<open>AdjustPercentCount\<close> computes exactly this group-wise distribution on the sorted
  items.
\<close>

theorem AdjustPercentCount_groups_atomic:
  "sorts_items srt \<Longrightarrow>
   AdjustPercentCount srt items left = spec_distribute_groups (srt items) left"
proof -
  assume "sorts_items srt"
  then have "item_sorted (srt items)" by (simp add: sorts_items_def)
  then show ?thesis
    by (simp add: AdjustPercentCount_walk_runs walk_runs_groups)
qed

theorem AdjustPercentCount_groups_atomic_witness:
  "sorts_items sort_items \<and>
   AdjustPercentCount sort_items
     [\<lparr>index = 0, percent = 50, remainder = 0\<rparr>, \<lparr>index = 1, percent = 16, remainder = 4\<rparr>,
      \<lparr>index = 2, percent = 16, remainder = 4\<rparr>, \<lparr>index = 3, percent = 16, remainder = 4\<rparr>] 2
   = [\<lparr>index = 1, percent = 16, remainder = 4\<rparr>, \<lparr>index = 2, percent = 16, remainder = 4\<rparr>,
      \<lparr>index = 3, percent = 16, remainder = 4\<rparr>, \<lparr>index = 0, percent = 51, remainder = 0\<rparr>]"
  using AdjustPercentCount_groups_atomic[OF sorts_items_sort_items,
      of "[\<lparr>index = 0, percent = 50, remainder = 0\<rparr>, \<lparr>index = 1, percent = 16, remainder = 4\<rparr>,
           \<lparr>index = 2, percent = 16, remainder = 4\<rparr>, \<lparr>index = 3, percent = 16, remainder = 4\<rparr>]" 2]
    sorts_items_sort_items
  by (simp add: item_less_def same_key_def incr_def)

text \<open>
  C8. \<open>CountNicePercent\<close> is deterministic although the sort is not stable: whatever
  order the sorting routine gives to items that compare equal, the same inputs produce
  the same output, errors included.
\<close>

theorem CountNicePercent_deterministic:
  assumes "sorts_items srt1" and "sorts_items srt2"
  shows "CountNicePercent srt1 kMaxOptions votes tot result =
         CountNicePercent srt2 kMaxOptions votes tot result"
  using assms by (rule CountNicePercent_sort_indep)

theorem CountNicePercent_deterministic_witness:
  "sorts_items sort_items \<and> sorts_items sort_items_rev \<and>
   CountNicePercent sort_items 10 [1, 2, 2, 2] 7 [0, 0, 0, 0] = Inr [15, 28, 28, 28] \<and>
   CountNicePercent sort_items_rev 10 [1, 2, 2, 2] 7 [0, 0, 0, 0] = Inr [15, 28, 28, 28]"
proof -
  have "CountNicePercent sort_items 10 [1, 2, 2, 2] 7 [0, 0, 0, 0] = Inr [15, 28, 28, 28]"
    by (simp add: allocator_eval)
  then show ?thesis
    using CountNicePercent_deterministic[OF sorts_items_sort_items sorts_items_sort_items_rev,
        of 10 "[1, 2, 2, 2]" 7 "[0, 0, 0, 0]"]
      sorts_items_sort_items sorts_items_sort_items_rev
    by simp
qed

lemma percent_base_items:
  "length is = length vs \<Longrightarrow>
   map percent (map2 (base_item tot) is vs) = map (\<lambda>v. trunc_div (v * 100) tot) vs"
  by (induction "is" vs rule: list_induct2) (auto simp: base_item_def)

text \<open>
  C9. For an all-zero vote vector of any length \<open>n\<close> up to the maximum option count,
  with the total normalised to 1, \<open>CountNicePercent\<close> writes zero for every option
  (so the percentages sum to 0, not to 100) and leaves the rest of the output span as it
  was. \<open>kMaxOptions\<close> is a parameter of the model; the statement needs it below 100,
  since with exactly one hundred all-zero options the single group would fit the deficit
  of 100.
\<close>

theorem CountNicePercent_all_zero:
  assumes "n \<le> kMaxOptions" and "kMaxOptions < 100" and "n \<le> length result"
  shows "CountNicePercent srt kMaxOptions (replicate n 0) 1 result = Inr (replicate n 0 @ drop n result)"
proof -
  define items where "items = map2 (base_item 1) [0..<n] (replicate n 0)"
  have z: "sum_list (map (\<lambda>v. v * 100 div 1) (replicate n (0::int))) = 0"
    by (induction n) auto
  have fill: "fill_items (replicate n 0) 1 0 100 = Inr (items, 100)"
    using fill_items_nonneg[of 1 "replicate n 0" 100 0] z
    by (simp add: INT_MAX_def INT_MIN_def items_def)
  have no: "\<not> (0 < (100::int) \<and> 100 \<le> int (length (replicate n (0::int))))"
    using assms(1,2) by simp
  have cnp: "CountNicePercent srt kMaxOptions (replicate n 0) 1 result = Inr (write_back items result)"
    using assms(1,3) no by (simp add: CountNicePercent_def fill)
  have li: "length items = n" by (simp add: items_def)
  have "map index items = [0..<0 + length (replicate n (0::int))]"
    using fill by (rule fill_items_index)
  then have ix: "map index items = [0..<length items]" by (simp add: li)
  have "map percent items = map (\<lambda>v. trunc_div (v * 100) 1) (replicate n 0)"
    unfolding items_def by (rule percent_base_items) simp
  then have p: "map percent items = replicate n 0"
    by (simp add: trunc_div_def)
  have "write_back items result = map percent items @ drop (length items) result"
    using ix assms(3) by (intro write_back_in_order) (simp_all add: li)
  then show ?thesis by (simp add: cnp p li)
qed

theorem CountNicePercent_all_zero_witness:
  "(3::nat) \<le> 10 \<and> (10::nat) < 100 \<and> 3 \<le> length [5, 5, 5 :: int] \<and>
   CountNicePercent sort_items 10 (replicate 3 0) 1 [5, 5, 5] = Inr [0, 0, 0]"
  using CountNicePercent_all_zero[of 3 10 "[5, 5, 5]" sort_items]
  by (simp add: numeral_3_eq_3)

text \<open>
  C2. For votes \<open>[1, 1, 1]\<close> and total 3 every option has base percent 33 and
  remainder 1. The claim that exactly one option receives the extra point, as in
  \<open>[34, 33, 33]\<close>, fails: the group of three does not fit within the deficit of 1 and
  is skipped as a whole.
\<close>

theorem three_way_tie_counterexample:
  "CountNicePercent sort_items 10 [1, 1, 1] 3 [0, 0, 0] = Inr [33, 33, 33] \<and>
   mset [33, 33, 33 :: int] \<noteq> mset [34, 33, 33] \<and> sum_list [33, 33, 33 :: int] \<noteq> 100"
  by (simp add: allocator_eval)

text \<open>
  C2, amended. For votes \<open>[1, 1, 1]\<close> and total 3, whatever order the sort gives to
  the three tied options, no option receives the extra point: the output is
  \<open>[33, 33, 33]\<close>, which sums to 99.
\<close>

theorem three_way_tie_skipped:
  assumes "sorts_items srt" and "3 \<le> kMaxOptions" and "3 \<le> length result"
  shows "CountNicePercent srt kMaxOptions [1, 1, 1] 3 result = Inr ([33, 33, 33] @ drop 3 result)"
proof -
  have "CountNicePercent srt kMaxOptions [1, 1, 1] 3 result =
      CountNicePercent sort_items kMaxOptions [1, 1, 1] 3 result"
    using assms(1) sorts_items_sort_items by (rule CountNicePercent_sort_indep)
  moreover obtain a b c rest where r: "result = a # b # c # rest"
    using assms(3) by (metis Suc_le_length_iff numeral_3_eq_3)
  moreover have "CountNicePercent sort_items kMaxOptions [1, 1, 1] 3 (a # b # c # rest) =
      Inr ([33, 33, 33] @ rest)"
    using assms(2) by (simp add: allocator_eval)
  ultimately show ?thesis by simp
qed

theorem three_way_tie_skipped_witness:
  "sorts_items sort_items_rev \<and> (3::nat) \<le> 10 \<and> 3 \<le> length [7, 7, 7, 7 :: int] \<and>
   CountNicePercent sort_items_rev 10 [1, 1, 1] 3 [7, 7, 7, 7] = Inr [33, 33, 33, 7]"
  using three_way_tie_skipped[OF sorts_items_sort_items_rev, of 10 "[7, 7, 7, 7]"]
    sorts_items_sort_items_rev
  by simp

lemma sum_percent_filter_split:
  "sum_list (map percent (filter P xs)) + sum_list (map percent (filter (\<lambda>y. \<not> P y) xs))
   = sum_list (map percent xs)"
  by (induction xs) auto

lemma groups_sum_unspent:
  "sum_list (map percent (spec_distribute_groups xs left))
   = sum_list (map percent xs) + left - spec_unspent_deficit xs left"
proof (induction xs left rule: spec_distribute_groups.induct)
  case (1 left)
  show ?case by simp
next
  case (2 x xs left)
  let ?g = "x # filter (same_key x) xs" and ?o = "filter (\<lambda>y. \<not> same_key x y) xs"
  have split: "sum_list (map percent (x # xs)) = sum_list (map percent ?g) + sum_list (map percent ?o)"
    using sum_percent_filter_split[of "same_key x" xs] by simp
  show ?case
  proof (cases "int (length ?g) \<le> left")
    case True
    with 2(1)[OF refl refl True] show ?thesis
      unfolding split by (simp add: Let_def sum_percent_incr incr_def)
  next
    case False
    with 2(2)[OF refl refl False] show ?thesis
      unfolding split by (simp add: Let_def)
  qed
qed

lemma unspent_deficit_cong:
  assumes "item_sorted xs" and "item_sorted ys" and "mset xs = mset ys"
  shows "spec_unspent_deficit xs left = spec_unspent_deficit ys left"
proof -
  have "mset (spec_distribute_groups xs left) = mset (spec_distribute_groups ys left)"
    using assms by (rule groups_mset_cong)
  then have "sum_list (map percent (spec_distribute_groups xs left))
      = sum_list (map percent (spec_distribute_groups ys left))"
    by (rule sum_percent_mset)
  moreover have "sum_list (map percent xs) = sum_list (map percent ys)"
    using assms(3) by (rule sum_percent_mset)
  ultimately show ?thesis
    using groups_sum_unspent[of xs left] groups_sum_unspent[of ys left] by simp
qed

lemma unspent_deficit_zero: "spec_unspent_deficit xs 0 = 0"
proof (induction xs "0::int" rule: spec_unspent_deficit.induct)
  case 1
  show ?case by simp
next
  case (2 x xs)
  then show ?case by (simp add: Let_def)
qed

lemma unspent_without_skip:
  "0 \<le> left \<Longrightarrow> left \<le> int (length xs) \<Longrightarrow> \<not> spec_group_skipped xs left \<Longrightarrow>
   spec_unspent_deficit xs left = 0"
proof (induction xs left rule: spec_group_skipped.induct)
  case (1 left)
  then show ?case by simp
next
  case (2 x xs left)
  let ?g = "x # filter (same_key x) xs" and ?o = "filter (\<lambda>y. \<not> same_key x y) xs"
  have len: "int (length (x # xs)) = int (length ?g) + int (length ?o)"
    using sum_length_filter_compl[of "same_key x" xs] by simp
  show ?case
  proof (cases "int (length ?g) \<le> left")
    case True
    have "spec_unspent_deficit ?o (left - int (length ?g)) = 0"
    proof (rule 2(1)[OF refl refl True])
      show "0 \<le> left - int (length ?g)" using True by simp
      show "left - int (length ?g) \<le> int (length ?o)" using 2(4) len by linarith
      show "\<not> spec_group_skipped ?o (left - int (length ?g))"
        using 2(5) True by (simp add: Let_def)
    qed
    with True show ?thesis by (simp add: Let_def)
  next
    case False
    then have "left = 0" using 2(3,5) by (simp add: Let_def)
    then show ?thesis using False by (simp add: Let_def unspent_deficit_zero)
  qed
qed


lemma length_sort_items: "length (sort_items xs) = length xs"
  using arg_cong[OF conjunct1[OF spec[OF sorts_items_sort_items[unfolded sorts_items_def], of xs]], of size]
  by simp

lemma CountNicePercent_sum_unspent:
  assumes srt: "sorts_items srt"
    and kmax: "length votes \<le> kMaxOptions"
    and res: "length votes \<le> length result"
    and nonneg: "\<forall>v\<in>set votes. 0 \<le> v \<and> v * 100 \<le> INT_MAX"
    and tot: "0 < tot"
    and low: "INT_MIN \<le> 100 - sum_list (map (\<lambda>v. v * 100 div tot) votes)"
  shows "\<exists>r. CountNicePercent srt kMaxOptions votes tot result = Inr r
           \<and> sum_list (take (length votes) r) = 100 - spec_unspent tot votes"
proof -
  define n where "n = length votes"
  define sf where "sf = sum_list (map (\<lambda>v. v * 100 div tot) votes)"
  define left where "left = 100 - sf"
  define items where "items = map2 (base_item tot) [0..<n] votes"
  define ws where "ws = (if 0 < left \<and> left \<le> int n then AdjustPercentCount srt items left else items)"
  define zs where "zs = sort_key index ws"
  have fill: "fill_items votes tot 0 100 = Inr (items, left)"
    using fill_items_nonneg[OF tot nonneg, of 100 0] low
    by (simp add: INT_MAX_def items_def left_def sf_def n_def)
  have cnp: "CountNicePercent srt kMaxOptions votes tot result = Inr (write_back ws result)"
    using kmax res by (simp add: CountNicePercent_def fill ws_def n_def)
  have idx_items: "map index items = [0..<n]"
    using fill_items_index[OF fill] by (simp add: n_def)
  have ms: "mset (srt items) = mset items" using srt by (simp add: sorts_items_def)
  have sorted_srt: "item_sorted (srt items)" using srt by (simp add: sorts_items_def)
  have ms': "mset (sort_items items) = mset items"
    using sorts_items_sort_items by (simp add: sorts_items_def)
  have sorted': "item_sorted (sort_items items)"
    using sorts_items_sort_items by (simp add: sorts_items_def)
  have no_adjust: "ws = items" if "\<not> (0 < left \<and> left \<le> int n)"
    unfolding ws_def using that by (rule if_not_P)
  have idx_ws: "mset (map index ws) = mset [0..<n]"
  proof (cases "0 < left \<and> left \<le> int n")
    case True
    then have "map index ws = map index (srt items)"
      by (simp add: ws_def AdjustPercentCount_walk_runs walk_runs_index)
    then have "mset (map index ws) = mset (map index items)"
      using ms by (metis mset_map)
    then show ?thesis by (simp only: idx_items)
  next
    case False
    show ?thesis by (simp only: no_adjust[OF False] idx_items)
  qed
  have wb: "write_back ws result = map percent zs @ drop n result"
    unfolding zs_def using idx_ws res[folded n_def] by (rule write_back_perm)
  have idx_zs: "map index zs = [0..<n]"
    unfolding zs_def using idx_ws by (rule sort_key_index_upt)
  have len_zs: "length zs = n"
    using arg_cong[OF idx_zs, of length] by simp
  have sum_items: "sum_list (map percent items) = sf"
    unfolding items_def sf_def using nonneg tot
    by (intro sum_floor_base_items) (auto simp: n_def)
  have sum_zs: "sum_list (map percent zs) = sum_list (map percent ws)"
    by (rule sum_percent_mset) (simp add: zs_def)
  have sum_srt: "sum_list (map percent (srt items)) = sf"
    using sum_percent_mset[OF ms] sum_items by simp
  have unspent: "spec_unspent tot votes
      = (if 0 < left \<and> left \<le> int n then spec_unspent_deficit (sort_items items) left else left)"
    by (simp add: spec_unspent_def Let_def left_def sf_def items_def n_def)
  have total: "sum_list (map percent ws) = 100 - spec_unspent tot votes"
  proof (cases "0 < left \<and> left \<le> int n")
    case True
    have "ws = spec_distribute_groups (srt items) left"
      using True walk_runs_groups[OF sorted_srt, of left]
      by (simp add: ws_def AdjustPercentCount_walk_runs)
    then have "sum_list (map percent ws) = sf + left - spec_unspent_deficit (srt items) left"
      using groups_sum_unspent[of "srt items" left] sum_srt by simp
    also have "spec_unspent_deficit (srt items) left = spec_unspent_deficit (sort_items items) left"
      using sorted_srt sorted' by (rule unspent_deficit_cong) (simp only: ms ms')
    finally show ?thesis using True by (simp add: unspent left_def)
  next
    case False
    have "spec_unspent tot votes = left" using False by (simp only: unspent if_False)
    then show ?thesis by (simp add: no_adjust[OF False] sum_items left_def)
  qed
  let ?r = "map percent zs @ drop n result"
  have 4: "take n ?r = map percent zs" using len_zs by simp
  have 0: "CountNicePercent srt kMaxOptions votes tot result = Inr ?r"
    by (simp only: cnp wb)
  have "sum_list (take n ?r) = 100 - spec_unspent tot votes"
    by (simp only: 4 sum_zs total)
  with 0 show ?thesis unfolding n_def by blast
qed

lemma no_skip_unspent:
  assumes tot: "0 < tot" and whole: "sum_list votes = tot"
    and noskip: "\<not> spec_tie_group_skipped tot votes"
  shows "spec_unspent tot votes = 0"
proof -
  define left where "left = 100 - sum_list (map (\<lambda>v. v * 100 div tot) votes)"
  define items where "items = sort_items (map2 (base_item tot) [0..<length votes] votes)"
  have len: "length items = length votes" by (simp add: items_def length_sort_items)
  have le: "sum_list votes \<le> tot" using whole by simp
  have ge0: "0 \<le> left" unfolding left_def using sum_floor_le_100[OF tot le] by simp
  have lt: "left < int (length votes)" unfolding left_def using sum_floor_gt[OF tot whole] by simp
  show ?thesis
  proof (cases "0 < left")
    case True
    then have "\<not> spec_group_skipped items left"
      using noskip lt by (simp add: spec_tie_group_skipped_def Let_def left_def items_def)
    then have "spec_unspent_deficit items left = 0"
      using ge0 lt len by (intro unspent_without_skip) simp_all
    then show ?thesis using True lt
      by (simp add: spec_unspent_def Let_def left_def items_def)
  next
    case False
    then have "left = 0" using ge0 by simp
    then show ?thesis by (simp add: spec_unspent_def Let_def left_def)
  qed
qed

lemmas unspent_eval = spec_unspent_def spec_tie_group_skipped_def base_item_def same_key_def
  trunc_div_def item_less_def

lemma spec_unspent_examples:
  "spec_tie_group_skipped 3 [1, 1, 1] \<and> spec_unspent 3 [1, 1, 1] = 1 \<and>
   spec_tie_group_skipped 8 [1, 1, 6] \<and> spec_unspent 8 [1, 1, 6] = 0 \<and>
   CountNicePercent sort_items 10 [1, 1, 6] 8 [0, 0, 0] = Inr [12, 12, 76] \<and>
   \<not> spec_tie_group_skipped 2 [1] \<and> spec_unspent 2 [1] = 50"
  by (simp add: unspent_eval allocator_eval)

text \<open>
  C1. The claim that for every vector of non-negative votes and every positive total the
  percentages lie in \<open>[0, 100]\<close> and sum to exactly 100 fails three times: a tie group
  that does not fit leaves the sum short (votes \<open>[1, 1, 1]\<close> of 3 give 99), a vote
  count above the total gives a percentage above 100 (2 votes of 1 give 200), and votes
  that sum to less than the total leave a deficit above the number of options, of which
  nothing is distributed (1 vote of 2 gives 50).
\<close>

theorem CountNicePercent_sum_counterexample:
  "CountNicePercent sort_items 10 [1, 1, 1] 3 [0, 0, 0] = Inr [33, 33, 33] \<and>
   sum_list [33, 33, 33 :: int] = 99 \<and>
   CountNicePercent sort_items 10 [2] 1 [0] = Inr [200] \<and>
   CountNicePercent sort_items 10 [1] 2 [0] = Inr [50]"
  by (simp add: allocator_eval)

text \<open>
  C1, amended. For non-negative votes whose sum is at most the positive total (with at
  most \<open>kMaxOptions\<close> options, an output span that is long enough and \<open>votes * 100\<close>
  within \<open>int\<close>), \<open>CountNicePercent\<close> returns, every percentage lies in
  \<open>[0, 100]\<close>, and the percentages sum to 100 minus the part of the deficit that the
  walk over the tie groups leaves unspent (\<open>spec_unspent\<close>), hence to at most 100.
  When the votes sum to the total, the sum is more than 100 minus the number of options,
  and it is exactly 100 unless the walk skips a tie group that is larger than the
  positive deficit remaining at that point (\<open>spec_tie_group_skipped\<close>).
\<close>

theorem CountNicePercent_bounds:
  assumes srt: "sorts_items srt"
    and kmax: "length votes \<le> kMaxOptions"
    and res: "length votes \<le> length result"
    and nonneg: "\<forall>v\<in>set votes. 0 \<le> v \<and> v * 100 \<le> INT_MAX"
    and tot: "0 < tot"
    and part: "sum_list votes \<le> tot"
  shows "\<exists>r. CountNicePercent srt kMaxOptions votes tot result = Inr r
           \<and> (\<forall>i<length votes. 0 \<le> r ! i \<and> r ! i \<le> 100)
           \<and> sum_list (take (length votes) r) = 100 - spec_unspent tot votes
           \<and> sum_list (take (length votes) r) \<le> 100
           \<and> (sum_list votes = tot \<longrightarrow>
                100 - int (length votes) < sum_list (take (length votes) r)
                \<and> (\<not> spec_tie_group_skipped tot votes \<longrightarrow>
                     sum_list (take (length votes) r) = 100))"
proof -
  define sf where "sf = sum_list (map (\<lambda>v. v * 100 div tot) votes)"
  have sf100: "sf \<le> 100" unfolding sf_def using tot part by (rule sum_floor_le_100)
  then have low: "INT_MIN \<le> 100 - sf" by (simp add: INT_MIN_def)
  from CountNicePercent_shape[OF srt kmax res nonneg tot low[unfolded sf_def]]
  obtain r where r: "CountNicePercent srt kMaxOptions votes tot result = Inr r"
    and len: "length r = length result"
    and each: "\<forall>i<length votes. r ! i = votes ! i * 100 div tot \<or> r ! i = votes ! i * 100 div tot + 1"
    and lower: "sf \<le> sum_list (take (length votes) r)"
    and upper: "sum_list (take (length votes) r) \<le> sf + max 0 (100 - sf)"
    unfolding sf_def by blast
  from CountNicePercent_sum_unspent[OF srt kmax res nonneg tot low[unfolded sf_def]] r
  have exact: "sum_list (take (length votes) r) = 100 - spec_unspent tot votes"
    by simp
  have sum100: "sum_list (take (length votes) r) \<le> 100"
    using upper sf100 by simp
  have ge0: "0 \<le> r ! i" if "i < length votes" for i
  proof -
    have "0 \<le> votes ! i * 100" using nonneg that by simp
    then have "0 \<le> votes ! i * 100 div tot" using tot by (simp add: pos_imp_zdiv_nonneg_iff)
    then show ?thesis using each that by auto
  qed
  have le100: "r ! i \<le> 100" if "i < length votes" for i
  proof -
    have li: "i < length (take (length votes) r)" using that res len by simp
    have all: "\<forall>x\<in>set (take (length votes) r). 0 \<le> x"
    proof
      fix x assume "x \<in> set (take (length votes) r)"
      then obtain k where "k < length (take (length votes) r)" "x = take (length votes) r ! k"
        by (auto simp: in_set_conv_nth)
      then show "0 \<le> x" using ge0 by simp
    qed
    have "take (length votes) r ! i \<in> set (take (length votes) r)"
      using li by (rule nth_mem)
    with all have "take (length votes) r ! i \<le> sum_list (take (length votes) r)"
      by (rule member_le_sum_list_int)
    then show ?thesis using sum100 that by simp
  qed
  have whole: "100 - int (length votes) < sum_list (take (length votes) r)" if "sum_list votes = tot"
    using sum_floor_gt[OF tot that] lower by (simp add: sf_def)
  have full: "sum_list (take (length votes) r) = 100"
    if "sum_list votes = tot" "\<not> spec_tie_group_skipped tot votes"
    using no_skip_unspent[OF tot that] exact by simp
  show ?thesis
    using r ge0 le100 exact sum100 whole full by blast
qed

theorem CountNicePercent_bounds_witness:
  "sorts_items sort_items \<and> sum_list [1, 2 :: int] = 3 \<and>
   \<not> spec_tie_group_skipped 3 [1, 2] \<and> spec_unspent 3 [1, 2] = 0 \<and>
   CountNicePercent sort_items 10 [1, 2] 3 [0, 0] = Inr [33, 67] \<and>
   sum_list (take 2 [33, 67 :: int]) = 100"
  using CountNicePercent_bounds[OF sorts_items_sort_items, of "[1, 2]" 10 "[0, 0]" 3]
    sorts_items_sort_items
  by (simp add: allocator_eval unspent_eval)

text \<open>
  C10. The part of the claim that the number of added points never exceeds the initial
  deficit fails when the deficit is negative: for 2 votes of a total of 1 the base
  percent is 200, the deficit is \<open>-100\<close> and no point is added.
\<close>

theorem added_points_counterexample:
  "CountNicePercent sort_items 10 [2] 1 [0] = Inr [200] \<and>
   \<not> ((200::int) - 2 * 100 div 1 \<le> 100 - 2 * 100 div 1)"
  by (simp add: allocator_eval)

text \<open>
  C10, amended. For non-negative votes and a positive total on which the code runs
  without overflow, every output percentage is the base percent
  \<open>votes * 100 div total\<close> or that plus one, and the number of points added is at
  least 0 and at most the initial deficit \<open>100 - sum\<close> of the base percents when that
  is positive; no point is added when the deficit is zero or negative.
\<close>

theorem CountNicePercent_floor_or_next:
  assumes srt: "sorts_items srt"
    and kmax: "length votes \<le> kMaxOptions"
    and res: "length votes \<le> length result"
    and nonneg: "\<forall>v\<in>set votes. 0 \<le> v \<and> v * 100 \<le> INT_MAX"
    and tot: "0 < tot"
    and low: "INT_MIN \<le> 100 - sum_list (map (\<lambda>v. v * 100 div tot) votes)"
  shows "\<exists>r. CountNicePercent srt kMaxOptions votes tot result = Inr r
           \<and> (\<forall>i<length votes. r ! i = votes ! i * 100 div tot \<or> r ! i = votes ! i * 100 div tot + 1)
           \<and> 0 \<le> sum_list (take (length votes) r) - sum_list (map (\<lambda>v. v * 100 div tot) votes)
           \<and> sum_list (take (length votes) r) - sum_list (map (\<lambda>v. v * 100 div tot) votes)
               \<le> max 0 (100 - sum_list (map (\<lambda>v. v * 100 div tot) votes))"
proof -
  from CountNicePercent_shape[OF srt kmax res nonneg tot low]
  obtain r where "CountNicePercent srt kMaxOptions votes tot result = Inr r"
    and "\<forall>i<length votes. r ! i = votes ! i * 100 div tot \<or> r ! i = votes ! i * 100 div tot + 1"
    and "sum_list (map (\<lambda>v. v * 100 div tot) votes) \<le> sum_list (take (length votes) r)"
    and "sum_list (take (length votes) r)
         \<le> sum_list (map (\<lambda>v. v * 100 div tot) votes)
           + max 0 (100 - sum_list (map (\<lambda>v. v * 100 div tot) votes))"
    by blast
  then show ?thesis
    by (intro exI[of _ r]) (simp add: algebra_simps)
qed

theorem CountNicePercent_floor_or_next_witness:
  "sorts_items sort_items \<and>
   CountNicePercent sort_items 10 [1, 2] 3 [0, 0] = Inr [33, 67] \<and>
   (33::int) = 1 * 100 div 3 \<and> (67::int) = 2 * 100 div 3 + 1 \<and>
   sum_list (take 2 [33, 67 :: int]) - (1 * 100 div 3 + 2 * 100 div 3) \<le> max 0 (100 - (1 * 100 div 3 + 2 * 100 div 3))"
  using CountNicePercent_floor_or_next[OF sorts_items_sort_items, of "[1, 2]" 10 "[0, 0]" 3]
    sorts_items_sort_items
  by (simp add: allocator_eval)

section \<open>The update pass of the poll view\<close>

lemma CountNicePercent_length:
  "CountNicePercent srt kMaxOptions votes tot result = Inr r \<Longrightarrow> length r = length result"
  by (auto simp: CountNicePercent_def length_write_back split: if_splits sum.splits prod.splits)

lemma CountNicePercent_returns:
  assumes "length votes \<le> kMaxOptions" and "length votes \<le> length result" and "0 < tot"
    and "\<forall>v\<in>set votes. 0 \<le> v \<and> v * 100 \<le> INT_MAX"
    and "INT_MIN \<le> 100 - sum_list (map (\<lambda>v. v * 100 div tot) votes)"
  shows "\<exists>r. CountNicePercent srt kMaxOptions votes tot result = Inr r"
proof -
  have "fill_items votes tot 0 100 =
      Inr (map2 (base_item tot) [0..<0 + length votes] votes,
           100 - sum_list (map (\<lambda>v. v * 100 div tot) votes))"
    using assms(3,4) _ assms(5) by (rule fill_items_nonneg) (simp add: INT_MAX_def)
  then show ?thesis using assms(1,2) by (simp add: CountNicePercent_def)
qed

lemma poll_ok_allocates:
  assumes "poll_ok kMaxOptions poll"
  shows "\<exists>r. CountNicePercent srt kMaxOptions (map pa_votes (poll_answers poll))
               (max 1 (poll_totalVoters poll)) (replicate (length (poll_answers poll)) 0) = Inr r
             \<and> length r = length (poll_answers poll)"
proof -
  have 1: "length (map pa_votes (poll_answers poll)) \<le> kMaxOptions"
    using assms by (simp add: poll_ok_def)
  have 2: "length (map pa_votes (poll_answers poll)) \<le> length (replicate (length (poll_answers poll)) (0::int))"
    by simp
  have 3: "0 < max 1 (poll_totalVoters poll)" by simp
  have 4: "\<forall>v\<in>set (map pa_votes (poll_answers poll)). 0 \<le> v \<and> v * 100 \<le> INT_MAX"
    using assms by (auto simp: poll_ok_def list_all_iff)
  have 5: "INT_MIN \<le> 100 - sum_list (map (\<lambda>v. v * 100 div max 1 (poll_totalVoters poll))
      (map pa_votes (poll_answers poll)))"
    using assms by (simp add: poll_ok_def comp_def)
  from CountNicePercent_returns[OF 1 2 3 4 5, of srt]
  obtain r where r: "CountNicePercent srt kMaxOptions (map pa_votes (poll_answers poll))
      (max 1 (poll_totalVoters poll)) (replicate (length (poll_answers poll)) 0) = Inr r"
    by blast
  from CountNicePercent_length[OF r] have "length r = length (poll_answers poll)" by simp
  with r show ?thesis by blast
qed

lemma max_element_votes_Max:
  "max_element_votes a rest = Max (set (map pa_votes (a # rest)))"
proof -
  have e: "(\<lambda>b m. if m < pa_votes b then pa_votes b else m) = (\<lambda>b. max (pa_votes b))"
    by (auto simp: fun_eq_iff max_def)
  have "max_element_votes a rest = fold (\<lambda>b. max (pa_votes b)) rest (pa_votes a)"
    unfolding max_element_votes_def e ..
  then have "max_element_votes a rest = fold max (map pa_votes rest) (pa_votes a)"
    by (simp add: fold_map comp_def)
  also have "\<dots> = Max (set (pa_votes a # map pa_votes rest))"
    by (simp only: Max.set_eq_fold)
  finally show ?thesis by simp
qed

lemma updateAnswerVotesFromOriginal_fields:
  "an_votes (updateAnswerVotesFromOriginal s answer original pct maxVotes) = pa_votes original"
  "an_filling (updateAnswerVotesFromOriginal s answer original pct maxVotes)
     = real_of_int (pa_votes original) / real_of_int maxVotes"
  "an_votesPercent (updateAnswerVotesFromOriginal s answer original pct maxVotes)
     = (if canVote s then 0 else pct)"
  "an_option (updateAnswerVotesFromOriginal s answer original pct maxVotes) = an_option answer"
  "an_text (updateAnswerVotesFromOriginal s answer original pct maxVotes) = an_text answer"
  by (simp_all add: updateAnswerVotesFromOriginal_def Let_def)

lemma updateAnswerVotes_skip:
  "length (poll_answers poll) \<noteq> length (hp_answers s) \<or> poll_answers poll = [] \<Longrightarrow>
   updateAnswerVotes srt kMaxOptions s poll = Inr s"
  by (auto simp: updateAnswerVotes_def split: list.splits)

lemma updateAnswerVotes_ok:
  assumes ok: "poll_ok kMaxOptions poll"
    and len: "length (poll_answers poll) = length (hp_answers s)"
    and ne: "poll_answers poll \<noteq> []"
    and r: "CountNicePercent srt kMaxOptions (map pa_votes (poll_answers poll))
             (max 1 (poll_totalVoters poll)) (replicate (length (poll_answers poll)) 0) = Inr r"
  shows "updateAnswerVotes srt kMaxOptions s poll =
    Inr (s\<lparr>hp_answers :=
             map (\<lambda>(answer, original, pct).
                    updateAnswerVotesFromOriginal s answer original pct
                      (max 1 (Max (set (map pa_votes (poll_answers poll))))))
               (zip (hp_answers s) (zip (poll_answers poll) r))\<rparr>)"
proof -
  obtain a rest where ar: "poll_answers poll = a # rest" using ne by (cases "poll_answers poll") auto
  have k: "length (poll_answers poll) \<le> kMaxOptions" using ok by (simp add: poll_ok_def)
  have m: "max_element_votes a rest = Max (set (map pa_votes (poll_answers poll)))"
    by (simp only: max_element_votes_Max ar)
  show ?thesis
    using len k r unfolding updateAnswerVotes_def ar[symmetric]
    by (simp add: ar Let_def m[unfolded ar] del: replicate.simps)
qed

lemma updateTotalVotes_frame:
  "hp_answers (updateTotalVotes s poll) = hp_answers s"
  "hp_voted (updateTotalVotes s poll) = hp_voted s"
  "hp_closed (updateTotalVotes s poll) = hp_closed s"
  "hp_answersAnimation (updateTotalVotes s poll) = hp_answersAnimation s"
  "hp_totalVotes (updateTotalVotes s poll) = poll_totalVoters poll"
  by (simp_all add: updateTotalVotes_def)

lemma nth_map_zip3:
  "i < length xs \<Longrightarrow> length ys = length xs \<Longrightarrow> length zs = length xs \<Longrightarrow>
   map f (zip xs (zip ys zs)) ! i = f (xs ! i, ys ! i, zs ! i)"
  by simp

lemma updateVotes_ok:
  assumes ok: "poll_ok kMaxOptions poll"
    and len: "length (poll_answers poll) = length (hp_answers s)"
  shows "\<exists>s' r. updateVotes srt kMaxOptions s poll = Inr s'
      \<and> (poll_answers poll \<noteq> [] \<longrightarrow>
           CountNicePercent srt kMaxOptions (map pa_votes (poll_answers poll))
             (max 1 (poll_totalVoters poll)) (replicate (length (poll_answers poll)) 0) = Inr r)
      \<and> hp_voted s' = poll_voted poll
      \<and> hp_closed s' = hp_closed s
      \<and> hp_answersAnimation s' = hp_answersAnimation s
      \<and> hp_totalVotes s' = poll_totalVoters poll
      \<and> length (hp_answers s') = length (hp_answers s)
      \<and> (\<forall>i<length (hp_answers s).
           an_option (hp_answers s' ! i) = an_option (hp_answers s ! i)
           \<and> an_votes (hp_answers s' ! i) = pa_votes (poll_answers poll ! i)
           \<and> an_filling (hp_answers s' ! i)
               = real_of_int (pa_votes (poll_answers poll ! i))
                 / real_of_int (max 1 (Max (set (map pa_votes (poll_answers poll)))))
           \<and> an_votesPercent (hp_answers s' ! i)
               = (if \<not> poll_voted poll \<and> \<not> hp_closed s then 0 else r ! i))"
proof (cases "poll_answers poll = []")
  case True
  then have "hp_answers s = []" using len by simp
  moreover have "updateVotes srt kMaxOptions s poll
      = Inr (updateTotalVotes (s\<lparr>hp_voted := poll_voted poll\<rparr>) poll)"
    using True by (simp add: updateVotes_def updateAnswerVotes_skip)
  ultimately show ?thesis using True by (simp add: updateTotalVotes_frame)
next
  case False
  let ?s1 = "s\<lparr>hp_voted := poll_voted poll\<rparr>"
  let ?m = "max 1 (Max (set (map pa_votes (poll_answers poll))))"
  from poll_ok_allocates[OF ok, of srt] obtain r where
    r: "CountNicePercent srt kMaxOptions (map pa_votes (poll_answers poll))
          (max 1 (poll_totalVoters poll)) (replicate (length (poll_answers poll)) 0) = Inr r"
    and lr: "length r = length (poll_answers poll)" by blast
  define new where "new = map (\<lambda>(answer, original, pct).
      updateAnswerVotesFromOriginal ?s1 answer original pct ?m)
    (zip (hp_answers s) (zip (poll_answers poll) r))"
  have len1: "length (poll_answers poll) = length (hp_answers ?s1)" using len by simp
  have av: "updateAnswerVotes srt kMaxOptions ?s1 poll = Inr (?s1\<lparr>hp_answers := new\<rparr>)"
    using updateAnswerVotes_ok[OF ok len1 False r] by (simp add: new_def)
  have uv: "updateVotes srt kMaxOptions s poll
      = Inr (updateTotalVotes (?s1\<lparr>hp_answers := new\<rparr>) poll)"
    by (simp add: updateVotes_def av)
  have ln: "length new = length (hp_answers s)"
    using len lr by (simp add: new_def)
  have can: "canVote ?s1 = (\<not> poll_voted poll \<and> \<not> hp_closed s)"
    by (simp add: canVote_def)
  have nth: "new ! i = updateAnswerVotesFromOriginal ?s1 (hp_answers s ! i)
      (poll_answers poll ! i) (r ! i) ?m" if "i < length (hp_answers s)" for i
    unfolding new_def using that len lr by (subst nth_map_zip3) simp_all
  show ?thesis
    using r ln nth
    by (intro exI[of _ "updateTotalVotes (?s1\<lparr>hp_answers := new\<rparr>) poll"] exI[of _ r])
       (simp add: uv updateTotalVotes_frame updateAnswerVotesFromOriginal_fields can)
qed

lemma updateAnswers_unchanged:
  "map an_option (hp_answers s) = map pa_option (poll_answers poll) \<Longrightarrow>
   updateAnswers s poll = s\<lparr>hp_answers := map2 fillText (hp_answers s) (poll_answers poll)\<rparr>"
  by (simp add: updateAnswers_def)

lemma updateAnswers_changed:
  "map an_option (hp_answers s) \<noteq> map pa_option (poll_answers poll) \<Longrightarrow>
   updateAnswers s poll =
     resetAnswersAnimation
       (s\<lparr>hp_answers :=
            map (\<lambda>answer. fillText (Answer_default\<lparr>an_option := pa_option answer\<rparr>) answer)
              (poll_answers poll)\<rparr>)
       poll"
  by (simp add: updateAnswers_def)

lemma fillText_fields:
  "an_option (fillText answer original) = an_option answer"
  "an_votes (fillText answer original) = an_votes answer"
  "an_votesPercent (fillText answer original) = an_votesPercent answer"
  "an_filling (fillText answer original) = an_filling answer"
  "an_votesPercentString (fillText answer original) = an_votesPercentString answer"
  "an_text (fillText answer original) = pa_text original"
  by (auto simp: fillText_def)

lemma resetAnswersAnimation_frame:
  "hp_answersAnimation (resetAnswersAnimation s poll) = None"
  "hp_answers (resetAnswersAnimation s poll) = hp_answers s"
  "hp_voted (resetAnswersAnimation s poll) = hp_voted s"
  "hp_closed (resetAnswersAnimation s poll) = hp_closed s"
  by (simp_all add: resetAnswersAnimation_def Let_def)

lemma updateTexts_unfold:
  assumes "hp_pollVersion s \<noteq> poll_version poll"
  shows "updateTexts srt kMaxOptions s poll =
    (let c = checkAnimationStart (s\<lparr>hp_pollVersion := poll_version poll\<rparr>) poll;
         s3 = (if hp_question (snd c) \<noteq> poll_question poll
               then (snd c)\<lparr>hp_question := poll_question poll\<rparr> else snd c);
         s4 = (if hp_closed s3 \<noteq> poll_closed poll \<or> hp_subtitle s3 = None
               then s3\<lparr>hp_closed := poll_closed poll,
                       hp_subtitle := Some (if poll_closed poll then lng_polls_closed
                                            else lng_polls_anonymous)\<rparr>
               else s3)
     in case updateVotes srt kMaxOptions (updateAnswers s4 poll) poll of
          Inl e \<Rightarrow> Inl e
        | Inr s6 \<Rightarrow> Inr (if fst c then startAnswersAnimation s6 else s6))"
  using assms by (simp add: updateTexts_def Let_def case_prod_beta)

lemma header_refreshed_frame:
  "hp_answers (header_refreshed s poll) = hp_answers s"
  "hp_voted (header_refreshed s poll) = hp_voted s"
  "hp_closed (header_refreshed s poll) = poll_closed poll"
  "hp_answersAnimation (header_refreshed s poll) = hp_answersAnimation s"
  by (auto simp: header_refreshed_def Let_def)

lemma updateTexts_steps:
  assumes "hp_pollVersion s \<noteq> poll_version poll"
  shows "updateTexts srt kMaxOptions s poll =
    (case updateVotes srt kMaxOptions
            (updateAnswers
               (header_refreshed
                  (snd (checkAnimationStart (s\<lparr>hp_pollVersion := poll_version poll\<rparr>) poll)) poll)
               poll)
            poll of
       Inl e \<Rightarrow> Inl e
     | Inr s6 \<Rightarrow>
         Inr (if fst (checkAnimationStart (s\<lparr>hp_pollVersion := poll_version poll\<rparr>) poll)
              then startAnswersAnimation s6 else s6))"
  unfolding updateTexts_unfold[OF assms] header_refreshed_def by (simp only: Let_def)

lemma checkAnimationStart_mismatch:
  "length (poll_answers poll) \<noteq> length (hp_answers s) \<Longrightarrow>
   checkAnimationStart s poll = (False, s)"
  by (simp add: checkAnimationStart_def)

lemma checkAnimationStart_triggered:
  assumes "length (poll_answers poll) = length (hp_answers s)"
    and "canVote s \<noteq> (\<not> poll_voted poll \<and> \<not> poll_closed poll)
         \<or> map an_votes (hp_answers s) \<noteq> map pa_votes (poll_answers poll)"
  shows "checkAnimationStart s poll = (True, saveStateInAnimation s)"
proof -
  have "answerVotesChanged s poll"
    if "map an_votes (hp_answers s) \<noteq> map pa_votes (poll_answers poll)"
  proof -
    have "poll_answers poll \<noteq> []" using that assms(1) by auto
    then show ?thesis using that assms(1) by (simp add: answerVotesChanged_def)
  qed
  then have "(canVote s \<noteq> (\<not> poll_voted poll \<and> \<not> poll_closed poll)) \<or> answerVotesChanged s poll"
    using assms(2) by blast
  then show ?thesis
    using assms(1) by (simp add: checkAnimationStart_def Let_def)
qed

lemma startAnswersAnimation_Some:
  assumes "hp_answersAnimation s = Some a" and "length (anim_data a) = length (hp_answers s)"
  shows "startAnswersAnimation s =
    s\<lparr>hp_answersAnimation :=
        Some (a\<lparr>anim_data :=
                  map (\<lambda>(answer, d).
                     d\<lparr>aa_percent := value_start (aa_percent d)
                          (if canVote s then 0 else real_of_int (an_votesPercent answer)),
                       aa_filling := value_start (aa_filling d)
                          (if canVote s then 0 else an_filling answer),
                       aa_opacity := value_start (aa_opacity d) (if canVote s then 0 else 1)\<rparr>)
                   (zip (hp_answers s) (anim_data a)),
                anim_progress := Simple_start 0 1\<rparr>)\<rparr>"
  using assms by (simp add: startAnswersAnimation_def Let_def)

lemma started_entry:
  "\<lparr>aa_percent = value_start (value_of p) p', aa_filling = value_start (value_of f) f',
    aa_opacity = value_start (value_of o1) o2\<rparr>
   = \<lparr>aa_percent = \<lparr>av_from = p, av_to = p', av_current = p\<rparr>,
      aa_filling = \<lparr>av_from = f, av_to = f', av_current = f\<rparr>,
      aa_opacity = \<lparr>av_from = o1, av_to = o2, av_current = o1\<rparr>\<rparr>"
  by (simp add: value_start_def value_of_def)

lemma updateTexts_transition:
  assumes ver: "hp_pollVersion s \<noteq> poll_version poll"
    and opts: "map an_option (hp_answers s) = map pa_option (poll_answers poll)"
    and trig: "canVote s \<noteq> (\<not> poll_voted poll \<and> \<not> poll_closed poll)
               \<or> map an_votes (hp_answers s) \<noteq> map pa_votes (poll_answers poll)"
    and idle: "hp_answersAnimation s = None"
    and ok: "poll_ok kMaxOptions poll"
  shows "\<exists>s' a r. updateTexts srt kMaxOptions s poll = Inr s'
      \<and> hp_answersAnimation s' = Some a
      \<and> anim_progress a = Simple_start 0 1
      \<and> length (anim_data a) = length (hp_answers s')
      \<and> length (hp_answers s') = length (hp_answers s)
      \<and> hp_voted s' = poll_voted poll
      \<and> hp_closed s' = poll_closed poll
      \<and> (poll_answers poll \<noteq> [] \<longrightarrow>
           CountNicePercent srt kMaxOptions (map pa_votes (poll_answers poll))
             (max 1 (poll_totalVoters poll)) (replicate (length (poll_answers poll)) 0) = Inr r)
      \<and> (\<forall>i<length (hp_answers s).
           anim_data a ! i =
             \<lparr>aa_percent =
                \<lparr>av_from = (if canVote s then 0 else real_of_int (an_votesPercent (hp_answers s ! i))),
                 av_to = (if canVote s' then 0 else real_of_int (an_votesPercent (hp_answers s' ! i))),
                 av_current = (if canVote s then 0 else real_of_int (an_votesPercent (hp_answers s ! i)))\<rparr>,
              aa_filling =
                \<lparr>av_from = (if canVote s then 0 else an_filling (hp_answers s ! i)),
                 av_to = (if canVote s' then 0 else an_filling (hp_answers s' ! i)),
                 av_current = (if canVote s then 0 else an_filling (hp_answers s ! i))\<rparr>,
              aa_opacity =
                \<lparr>av_from = (if canVote s then 0 else 1),
                 av_to = (if canVote s' then 0 else 1),
                 av_current = (if canVote s then 0 else 1)\<rparr>\<rparr>
           \<and> an_votes (hp_answers s' ! i) = pa_votes (poll_answers poll ! i)
           \<and> an_filling (hp_answers s' ! i)
               = real_of_int (pa_votes (poll_answers poll ! i))
                 / real_of_int (max 1 (Max (set (map pa_votes (poll_answers poll)))))
           \<and> an_votesPercent (hp_answers s' ! i) = (if canVote s' then 0 else r ! i))"
proof -
  let ?s1 = "s\<lparr>hp_pollVersion := poll_version poll\<rparr>"
  define n where "n = length (hp_answers s)"
  have len: "length (poll_answers poll) = n"
    using opts unfolding n_def by (metis length_map)
  define a0 where "a0 = \<lparr>anim_data = map (convert (canVote s)) (hp_answers s),
    anim_progress = Simple_idle\<rparr>"
  define s2 where "s2 = ?s1\<lparr>hp_answersAnimation := Some a0\<rparr>"
  have can1: "canVote ?s1 = canVote s" by (simp add: canVote_def)
  have save: "saveStateInAnimation ?s1 = s2"
    using idle by (simp add: saveStateInAnimation_def Let_def s2_def a0_def can1)
  have chk: "checkAnimationStart ?s1 poll = (True, s2)"
    unfolding save[symmetric]
    by (rule checkAnimationStart_triggered) (use len trig in \<open>simp_all add: n_def can1\<close>)
  define s4 where "s4 = header_refreshed s2 poll"
  have s4: "hp_answers s4 = hp_answers s" "hp_voted s4 = hp_voted s"
    "hp_closed s4 = poll_closed poll" "hp_answersAnimation s4 = Some a0"
    by (simp_all add: s4_def header_refreshed_frame s2_def)
  define s5 where "s5 = updateAnswers s4 poll"
  have s5_eq: "s5 = s4\<lparr>hp_answers := map2 fillText (hp_answers s) (poll_answers poll)\<rparr>"
    unfolding s5_def using opts s4(1) by (simp add: updateAnswers_unchanged)
  have s5: "length (hp_answers s5) = n" "hp_closed s5 = poll_closed poll"
    "hp_answersAnimation s5 = Some a0"
    using len by (simp_all add: s5_eq s4 n_def)
  have s5_nth: "an_votesPercent (hp_answers s5 ! i) = an_votesPercent (hp_answers s ! i)
      \<and> an_filling (hp_answers s5 ! i) = an_filling (hp_answers s ! i)" if "i < n" for i
    using that len by (simp add: s5_eq n_def fillText_fields)
  have len5: "length (poll_answers poll) = length (hp_answers s5)" using len s5(1) by simp
  from updateVotes_ok[OF ok len5, of srt] obtain s6 r where
    uv: "updateVotes srt kMaxOptions s5 poll = Inr s6"
    and r: "poll_answers poll \<noteq> [] \<longrightarrow>
           CountNicePercent srt kMaxOptions (map pa_votes (poll_answers poll))
             (max 1 (poll_totalVoters poll)) (replicate (length (poll_answers poll)) 0) = Inr r"
    and s6: "hp_voted s6 = poll_voted poll" "hp_closed s6 = hp_closed s5"
      "hp_answersAnimation s6 = hp_answersAnimation s5" "length (hp_answers s6) = length (hp_answers s5)"
    and s6_nth: "\<forall>i<length (hp_answers s5).
           an_option (hp_answers s6 ! i) = an_option (hp_answers s5 ! i)
           \<and> an_votes (hp_answers s6 ! i) = pa_votes (poll_answers poll ! i)
           \<and> an_filling (hp_answers s6 ! i)
               = real_of_int (pa_votes (poll_answers poll ! i))
                 / real_of_int (max 1 (Max (set (map pa_votes (poll_answers poll)))))
           \<and> an_votesPercent (hp_answers s6 ! i)
               = (if \<not> poll_voted poll \<and> \<not> hp_closed s5 then 0 else r ! i)"
    by blast
  have can6: "canVote s6 = (\<not> poll_voted poll \<and> \<not> poll_closed poll)"
    by (simp add: canVote_def s6 s5)
  have an6: "hp_answersAnimation s6 = Some a0" by (simp add: s6 s5)
  have la0: "length (anim_data a0) = length (hp_answers s6)"
    by (simp add: a0_def s6 s5 n_def)
  define started where "started = map (\<lambda>(answer, d).
      d\<lparr>aa_percent := value_start (aa_percent d)
           (if canVote s6 then 0 else real_of_int (an_votesPercent answer)),
        aa_filling := value_start (aa_filling d) (if canVote s6 then 0 else an_filling answer),
        aa_opacity := value_start (aa_opacity d) (if canVote s6 then 0 else 1)\<rparr>)
    (zip (hp_answers s6) (anim_data a0))"
  define a where "a = a0\<lparr>anim_data := started, anim_progress := Simple_start 0 1\<rparr>"
  define s' where "s' = s6\<lparr>hp_answersAnimation := Some a\<rparr>"
  have start: "startAnswersAnimation s6 = s'"
    unfolding s'_def a_def started_def by (rule startAnswersAnimation_Some[OF an6 la0])
  have ut: "updateTexts srt kMaxOptions s poll = Inr s'"
    unfolding updateTexts_steps[OF ver] chk
    by (simp add: s4_def[symmetric] s5_def[symmetric] uv start)
  have s'_frame: "hp_answers s' = hp_answers s6" "hp_voted s' = poll_voted poll"
    "hp_closed s' = poll_closed poll" "canVote s' = canVote s6"
    by (simp_all add: s'_def s6 s5 canVote_def)
  have l6: "length (hp_answers s6) = n" by (simp add: s6 s5)
  have ls: "length started = n" by (simp add: started_def l6 a0_def n_def)
  have entry: "started ! i =
      \<lparr>aa_percent =
         \<lparr>av_from = (if canVote s then 0 else real_of_int (an_votesPercent (hp_answers s ! i))),
          av_to = (if canVote s6 then 0 else real_of_int (an_votesPercent (hp_answers s6 ! i))),
          av_current = (if canVote s then 0 else real_of_int (an_votesPercent (hp_answers s ! i)))\<rparr>,
       aa_filling =
         \<lparr>av_from = (if canVote s then 0 else an_filling (hp_answers s ! i)),
          av_to = (if canVote s6 then 0 else an_filling (hp_answers s6 ! i)),
          av_current = (if canVote s then 0 else an_filling (hp_answers s ! i))\<rparr>,
       aa_opacity =
         \<lparr>av_from = (if canVote s then 0 else 1),
          av_to = (if canVote s6 then 0 else 1),
          av_current = (if canVote s then 0 else 1)\<rparr>\<rparr>" if "i < n" for i
  proof -
    have "started ! i =
        (anim_data a0 ! i)\<lparr>aa_percent := value_start (aa_percent (anim_data a0 ! i))
           (if canVote s6 then 0 else real_of_int (an_votesPercent (hp_answers s6 ! i))),
         aa_filling := value_start (aa_filling (anim_data a0 ! i))
           (if canVote s6 then 0 else an_filling (hp_answers s6 ! i)),
         aa_opacity := value_start (aa_opacity (anim_data a0 ! i)) (if canVote s6 then 0 else 1)\<rparr>"
      using that l6 by (simp add: started_def a0_def n_def)
    moreover have "anim_data a0 ! i = convert (canVote s) (hp_answers s ! i)"
      using that by (simp add: a0_def n_def)
    ultimately show ?thesis
      by (simp add: convert_def started_entry)
  qed
  have facts: "\<forall>i<n. an_votes (hp_answers s6 ! i) = pa_votes (poll_answers poll ! i)
           \<and> an_filling (hp_answers s6 ! i)
               = real_of_int (pa_votes (poll_answers poll ! i))
                 / real_of_int (max 1 (Max (set (map pa_votes (poll_answers poll)))))
           \<and> an_votesPercent (hp_answers s6 ! i) = (if canVote s6 then 0 else r ! i)"
    using s6_nth by (simp add: s5 can6)
  have 1: "hp_answersAnimation s' = Some a" by (simp add: s'_def)
  have 2: "anim_progress a = Simple_start 0 1" by (simp add: a_def)
  have 3: "length (anim_data a) = length (hp_answers s')" by (simp add: a_def ls s'_frame l6)
  have 4: "length (hp_answers s') = length (hp_answers s)" by (simp add: s'_frame l6 n_def)
  have 5: "anim_data a ! i = started ! i" for i by (simp add: a_def)
  show ?thesis
    apply (intro exI[of _ s'] exI[of _ a] exI[of _ r] conjI)
            apply (rule ut)
           apply (rule 1)
          apply (rule 2)
         apply (rule 3)
        apply (rule 4)
       apply (rule s'_frame(2))
      apply (rule s'_frame(3))
     apply (rule r)
    using entry facts
    apply (simp add: 5 s'_frame n_def[symmetric])
    done
qed

lemma animation_fits_iff:
  "animation_fits s \<longleftrightarrow>
   (\<forall>a. hp_answersAnimation s = Some a \<longrightarrow> length (anim_data a) = length (hp_answers s))"
  by (simp add: animation_fits_def split: option.splits)

lemma updateAnswerVotes_frame:
  assumes "updateAnswerVotes srt kMaxOptions s poll = Inr s'"
  shows "hp_answersAnimation s' = hp_answersAnimation s \<and> length (hp_answers s') = length (hp_answers s)"
proof (cases "length (poll_answers poll) \<noteq> length (hp_answers s) \<or> poll_answers poll = []")
  case True
  then have "updateAnswerVotes srt kMaxOptions s poll = Inr s" by (rule updateAnswerVotes_skip)
  with assms show ?thesis by simp
next
  case False
  then obtain a rest where ar: "poll_answers poll = a # rest" by (cases "poll_answers poll") auto
  from False have len: "length (poll_answers poll) = length (hp_answers s)" by simp
  from assms obtain r where
    r: "CountNicePercent srt kMaxOptions (map pa_votes (poll_answers poll))
          (max 1 (poll_totalVoters poll)) (replicate (length (poll_answers poll)) 0) = Inr r"
    and s': "s' = s\<lparr>hp_answers :=
               map (\<lambda>(answer, original, pct).
                      updateAnswerVotesFromOriginal s answer original pct
                        (max 1 (max_element_votes a rest)))
                 (zip (hp_answers s) (zip (poll_answers poll) r))\<rparr>"
    using len unfolding updateAnswerVotes_def ar[symmetric]
    by (auto simp: ar Let_def simp del: replicate.simps split: if_splits sum.splits)
  have "length r = length (poll_answers poll)"
    using CountNicePercent_length[OF r] by simp
  then show ?thesis using len by (simp add: s')
qed

lemma updateVotes_frame:
  assumes "updateVotes srt kMaxOptions s poll = Inr s'"
  shows "hp_answersAnimation s' = hp_answersAnimation s \<and> length (hp_answers s') = length (hp_answers s)"
proof -
  from assms obtain s1 where
    1: "updateAnswerVotes srt kMaxOptions (s\<lparr>hp_voted := poll_voted poll\<rparr>) poll = Inr s1"
    and 2: "s' = updateTotalVotes s1 poll"
    by (auto simp: updateVotes_def split: sum.splits)
  from updateAnswerVotes_frame[OF 1] show ?thesis
    by (simp add: 2 updateTotalVotes_frame)
qed

lemma animation_fits_save: "animation_fits s \<Longrightarrow> animation_fits (saveStateInAnimation s)"
  by (auto simp: animation_fits_iff saveStateInAnimation_def Let_def split: option.splits)

lemma animation_fits_start: "animation_fits s \<Longrightarrow> animation_fits (startAnswersAnimation s)"
  by (auto simp: animation_fits_iff startAnswersAnimation_def Let_def split: option.splits)

lemma animation_fits_check:
  "animation_fits s \<Longrightarrow> animation_fits (snd (checkAnimationStart s poll))"
  by (simp add: checkAnimationStart_def Let_def animation_fits_save)

lemma checkAnimationStart_answers:
  "hp_answers (snd (checkAnimationStart s poll)) = hp_answers s"
  by (simp add: checkAnimationStart_def Let_def saveStateInAnimation_def)

lemma animation_fits_header: "animation_fits s \<Longrightarrow> animation_fits (header_refreshed s poll)"
  by (simp add: animation_fits_iff header_refreshed_frame)

lemma animation_fits_updateAnswers:
  assumes "animation_fits s"
  shows "animation_fits (updateAnswers s poll)"
proof (cases "map an_option (hp_answers s) = map pa_option (poll_answers poll)")
  case True
  then have "length (hp_answers s) = length (poll_answers poll)" by (metis length_map)
  then show ?thesis
    using assms by (simp add: updateAnswers_unchanged[OF True] animation_fits_iff)
next
  case False
  then show ?thesis
    by (simp add: updateAnswers_changed animation_fits_iff resetAnswersAnimation_frame)
qed

lemma updateTexts_preserves:
  assumes "animation_fits s" and "updateTexts srt kMaxOptions s poll = Inr s'"
  shows "animation_fits s'"
proof (cases "hp_pollVersion s = poll_version poll")
  case True
  with assms show ?thesis by (simp add: updateTexts_def)
next
  case False
  let ?s1 = "s\<lparr>hp_pollVersion := poll_version poll\<rparr>"
  let ?c = "checkAnimationStart ?s1 poll"
  let ?s5 = "updateAnswers (header_refreshed (snd ?c) poll) poll"
  have "animation_fits ?s1" using assms(1) by (simp add: animation_fits_iff)
  then have f5: "animation_fits ?s5"
    by (intro animation_fits_updateAnswers animation_fits_header animation_fits_check)
  from assms(2) obtain s6 where
    uv: "updateVotes srt kMaxOptions ?s5 poll = Inr s6"
    and s': "s' = (if fst ?c then startAnswersAnimation s6 else s6)"
    unfolding updateTexts_steps[OF False] by (auto split: sum.splits)
  have "animation_fits s6"
    using f5 updateVotes_frame[OF uv] by (simp add: animation_fits_iff)
  then show ?thesis by (simp add: s' animation_fits_start)
qed

lemma checkSendingAnimation_frame:
  "hp_answersAnimation (checkSendingAnimation s poll) = hp_answersAnimation s"
  "hp_answers (checkSendingAnimation s poll) = hp_answers s"
  by (auto simp: checkSendingAnimation_def Let_def split: option.splits)

lemma draw_preserves:
  assumes "animation_fits s" and "draw s poll wide now = Inr s'"
  shows "animation_fits s'"
  using assms
  by (auto simp: draw_def Let_def animation_fits_iff checkSendingAnimation_frame
      resetAnswersAnimation_frame split: if_splits option.splits)

lemma draw_in_range:
  assumes "animation_fits s"
  shows "draw s poll wide now \<noteq> Inl IndexOutOfRange"
  using assms
  by (auto simp: draw_def Let_def animation_fits_iff checkSendingAnimation_frame
      resetAnswersAnimation_frame split: if_splits option.splits)

lemma reachable_fits: "reachable srt kMaxOptions s \<Longrightarrow> animation_fits s"
proof (induction rule: reachable.induct)
  case (created s)
  then show ?case by (simp add: animation_fits_iff)
next
  case (updated s poll s')
  then show ?case using updateTexts_preserves by blast
next
  case (drawn s poll wide now s')
  then show ?case using draw_preserves by blast
qed

section \<open>The claims about the answers animation\<close>

lemmas poll_eval =
  updateTexts_def checkAnimationStart_def answerVotesChanged_def saveStateInAnimation_def
  convert_def canVote_def updateAnswers_def resetAnswersAnimation_def fillText_def
  Answer_default_def updateVotes_def updateAnswerVotes_def max_element_votes_def
  updateAnswerVotesFromOriginal_def updateTotalVotes_def startAnswersAnimation_def
  value_of_def value_start_def Simple_idle_def Simple_start_def QString_number_def
  digits_of_nat.simps Let_def view_created_def poll_at_def

lemma view_created_to_shown_open:
  "updateTexts sort_items 10 view_created (poll_at 1 1 1 2 False False) = Inr shown_open"
  by (simp add: shown_open_def poll_eval allocator_eval)

lemma shown_open_to_open_changed:
  "updateTexts sort_items 10 shown_open (poll_at 2 2 1 3 False False) = Inr open_changed"
  by (simp add: shown_open_def open_changed_def poll_eval allocator_eval)

lemma view_created_to_shown_voted:
  "updateTexts sort_items 10 view_created (poll_at 1 1 1 2 True False) = Inr shown_voted"
  by (simp add: shown_voted_def poll_eval allocator_eval)

lemma shown_voted_to_retracting:
  "updateTexts sort_items 10 shown_voted (poll_at 2 0 1 1 False False) = Inr retracting"
  by (simp add: shown_voted_def retracting_def poll_eval allocator_eval)


lemma shown_voted_to_counting:
  "updateTexts sort_items 10 shown_voted (poll_at 2 1 2 3 True False) = Inr counting"
  by (simp add: shown_voted_def counting_def poll_eval allocator_eval)

lemma counting_to_counting_again:
  "updateTexts sort_items 10 counting (poll_at 3 1 3 4 True False) = Inr counting_again"
  by (simp add: counting_def counting_again_def poll_eval allocator_eval)

lemmas poll_ok_eval = poll_ok_def poll_at_def INT_MAX_def INT_MIN_def

text \<open>
  C4. The claim that a vote-count change creates an animation whose start values are the
  stored pre-change values and whose targets are the post-change values fails in two
  ways. While the viewer can vote, the stored filling of the first option is 1 before
  and after the change, but the animation of its filling starts at 0 and targets 0.
  While an animation is in flight, no object is created: after a second vote-count
  change the stored percent of the first option is 33, but its animation, restarted from
  the current value, starts at 50.
\<close>

theorem vote_change_counterexample:
  "updateTexts sort_items 10 view_created (poll_at 1 1 1 2 False False) = Inr shown_open \<and>
   hp_pollVersion shown_open \<noteq> poll_version (poll_at 2 2 1 3 False False) \<and>
   map an_option (hp_answers shown_open) = map pa_option (poll_answers (poll_at 2 2 1 3 False False)) \<and>
   an_votes (hp_answers shown_open ! 0) \<noteq> pa_votes (poll_answers (poll_at 2 2 1 3 False False) ! 0) \<and>
   updateTexts sort_items 10 shown_open (poll_at 2 2 1 3 False False) = Inr open_changed \<and>
   an_filling (hp_answers shown_open ! 0) = 1 \<and>
   av_from (aa_filling (anim_data (the (hp_answersAnimation open_changed)) ! 0)) = 0 \<and>
   an_filling (hp_answers open_changed ! 0) = 1 \<and>
   av_to (aa_filling (anim_data (the (hp_answersAnimation open_changed)) ! 0)) = 0 \<and>
   updateTexts sort_items 10 view_created (poll_at 1 1 1 2 True False) = Inr shown_voted \<and>
   updateTexts sort_items 10 shown_voted (poll_at 2 1 2 3 True False) = Inr counting \<and>
   hp_pollVersion counting \<noteq> poll_version (poll_at 3 1 3 4 True False) \<and>
   map an_option (hp_answers counting) = map pa_option (poll_answers (poll_at 3 1 3 4 True False)) \<and>
   an_votes (hp_answers counting ! 1) \<noteq> pa_votes (poll_answers (poll_at 3 1 3 4 True False) ! 1) \<and>
   updateTexts sort_items 10 counting (poll_at 3 1 3 4 True False) = Inr counting_again \<and>
   an_votesPercent (hp_answers counting ! 0) = 33 \<and>
   av_from (aa_percent (anim_data (the (hp_answersAnimation counting_again)) ! 0)) = 50"
  using view_created_to_shown_open shown_open_to_open_changed view_created_to_shown_voted
    shown_voted_to_counting counting_to_counting_again
  by (simp add: shown_open_def open_changed_def counting_def counting_again_def poll_at_def)

text \<open>
  C4, amended. When the poll data version changes with an unchanged option set and some
  option's vote count differing from the stored one, and no answers animation exists at
  that moment, the update pass returns with an animation object that has one entry per
  option and a progress timeline started from 0 towards 1. The start values of an entry
  are the percent and filling stored in the view before the change, with opacity 1, if
  the viewer could not vote before the change, and 0, 0, 0 if the viewer could. Its
  target values are the values computed from the new poll data: the percent that
  \<open>CountNicePercent\<close> allocates to the option for the new vote counts and
  \<open>max 1 totalVoters\<close>, the filling \<open>votes / max 1 maxVotes\<close> and opacity 1, if
  the viewer cannot vote after the change, and 0, 0, 0 if the viewer can. The pass
  stores the new vote count and that filling for every option, and as percent the
  allocated one, or 0 while the viewer can vote.
\<close>

theorem vote_change_starts_animation:
  assumes ver: "hp_pollVersion s \<noteq> poll_version poll"
    and opts: "map an_option (hp_answers s) = map pa_option (poll_answers poll)"
    and votes: "map an_votes (hp_answers s) \<noteq> map pa_votes (poll_answers poll)"
    and idle: "hp_answersAnimation s = None"
    and ok: "poll_ok kMaxOptions poll"
  shows "\<exists>s' a r. updateTexts srt kMaxOptions s poll = Inr s'
      \<and> hp_answersAnimation s' = Some a
      \<and> anim_progress a = Simple_start 0 1
      \<and> length (anim_data a) = length (hp_answers s')
      \<and> length (hp_answers s') = length (hp_answers s)
      \<and> canVote s' = (\<not> poll_voted poll \<and> \<not> poll_closed poll)
      \<and> CountNicePercent srt kMaxOptions (map pa_votes (poll_answers poll))
           (max 1 (poll_totalVoters poll)) (replicate (length (poll_answers poll)) 0) = Inr r
      \<and> (\<forall>i<length (hp_answers s).
           av_from (aa_percent (anim_data a ! i))
             = (if canVote s then 0 else real_of_int (an_votesPercent (hp_answers s ! i)))
           \<and> av_from (aa_filling (anim_data a ! i))
             = (if canVote s then 0 else an_filling (hp_answers s ! i))
           \<and> av_from (aa_opacity (anim_data a ! i)) = (if canVote s then 0 else 1)
           \<and> av_to (aa_percent (anim_data a ! i))
             = (if canVote s' then 0 else real_of_int (an_votesPercent (hp_answers s' ! i)))
           \<and> av_to (aa_filling (anim_data a ! i))
             = (if canVote s' then 0 else an_filling (hp_answers s' ! i))
           \<and> av_to (aa_opacity (anim_data a ! i)) = (if canVote s' then 0 else 1)
           \<and> av_to (aa_percent (anim_data a ! i))
             = (if \<not> poll_voted poll \<and> \<not> poll_closed poll then 0 else real_of_int (r ! i))
           \<and> av_to (aa_filling (anim_data a ! i))
             = (if \<not> poll_voted poll \<and> \<not> poll_closed poll then 0
                else real_of_int (pa_votes (poll_answers poll ! i))
                     / real_of_int (max 1 (Max (set (map pa_votes (poll_answers poll))))))
           \<and> av_to (aa_opacity (anim_data a ! i))
             = (if \<not> poll_voted poll \<and> \<not> poll_closed poll then 0 else 1)
           \<and> an_votes (hp_answers s' ! i) = pa_votes (poll_answers poll ! i)
           \<and> an_votesPercent (hp_answers s' ! i)
             = (if \<not> poll_voted poll \<and> \<not> poll_closed poll then 0 else r ! i)
           \<and> an_filling (hp_answers s' ! i)
             = real_of_int (pa_votes (poll_answers poll ! i))
               / real_of_int (max 1 (Max (set (map pa_votes (poll_answers poll))))))"
proof -
  have trig: "canVote s \<noteq> (\<not> poll_voted poll \<and> \<not> poll_closed poll)
      \<or> map an_votes (hp_answers s) \<noteq> map pa_votes (poll_answers poll)"
    using votes by simp
  have ne: "poll_answers poll \<noteq> []"
  proof
    assume e: "poll_answers poll = []"
    then have "hp_answers s = []" using opts by simp
    with e votes show False by simp
  qed
  from updateTexts_transition[OF ver opts trig idle ok, of srt]
  obtain s' a r where ut: "updateTexts srt kMaxOptions s poll = Inr s'"
    and an: "hp_answersAnimation s' = Some a" "anim_progress a = Simple_start 0 1"
      "length (anim_data a) = length (hp_answers s')" "length (hp_answers s') = length (hp_answers s)"
    and vc: "hp_voted s' = poll_voted poll" "hp_closed s' = poll_closed poll"
    and alloc: "poll_answers poll \<noteq> [] \<longrightarrow>
           CountNicePercent srt kMaxOptions (map pa_votes (poll_answers poll))
             (max 1 (poll_totalVoters poll)) (replicate (length (poll_answers poll)) 0) = Inr r"
    and entries: "\<forall>i<length (hp_answers s).
           anim_data a ! i =
             \<lparr>aa_percent =
                \<lparr>av_from = (if canVote s then 0 else real_of_int (an_votesPercent (hp_answers s ! i))),
                 av_to = (if canVote s' then 0 else real_of_int (an_votesPercent (hp_answers s' ! i))),
                 av_current = (if canVote s then 0 else real_of_int (an_votesPercent (hp_answers s ! i)))\<rparr>,
              aa_filling =
                \<lparr>av_from = (if canVote s then 0 else an_filling (hp_answers s ! i)),
                 av_to = (if canVote s' then 0 else an_filling (hp_answers s' ! i)),
                 av_current = (if canVote s then 0 else an_filling (hp_answers s ! i))\<rparr>,
              aa_opacity =
                \<lparr>av_from = (if canVote s then 0 else 1),
                 av_to = (if canVote s' then 0 else 1),
                 av_current = (if canVote s then 0 else 1)\<rparr>\<rparr>
           \<and> an_votes (hp_answers s' ! i) = pa_votes (poll_answers poll ! i)
           \<and> an_filling (hp_answers s' ! i)
               = real_of_int (pa_votes (poll_answers poll ! i))
                 / real_of_int (max 1 (Max (set (map pa_votes (poll_answers poll)))))
           \<and> an_votesPercent (hp_answers s' ! i) = (if canVote s' then 0 else r ! i)"
    by blast
  have can: "canVote s' = (\<not> poll_voted poll \<and> \<not> poll_closed poll)"
    by (simp add: canVote_def vc)
  have r: "CountNicePercent srt kMaxOptions (map pa_votes (poll_answers poll))
           (max 1 (poll_totalVoters poll)) (replicate (length (poll_answers poll)) 0) = Inr r"
    using alloc ne by simp
  show ?thesis
    apply (intro exI[of _ s'] exI[of _ a] exI[of _ r] conjI)
           apply (rule ut)
          apply (rule an(1))
         apply (rule an(2))
        apply (rule an(3))
       apply (rule an(4))
      apply (rule can)
     apply (rule r)
    using entries can
    apply simp
    done
qed

theorem vote_change_starts_animation_witness:
  "hp_pollVersion shown_voted \<noteq> poll_version (poll_at 2 1 2 3 True False) \<and>
   map an_option (hp_answers shown_voted) = map pa_option (poll_answers (poll_at 2 1 2 3 True False)) \<and>
   map an_votes (hp_answers shown_voted) \<noteq> map pa_votes (poll_answers (poll_at 2 1 2 3 True False)) \<and>
   hp_answersAnimation shown_voted = None \<and>
   poll_ok 10 (poll_at 2 1 2 3 True False) \<and>
   CountNicePercent sort_items 10 [1, 2] 3 [0, 0] = Inr [33, 67] \<and>
   (\<exists>s' a. updateTexts sort_items 10 shown_voted (poll_at 2 1 2 3 True False) = Inr s'
      \<and> hp_answersAnimation s' = Some a
      \<and> anim_progress a = Simple_start 0 1
      \<and> av_from (aa_percent (anim_data a ! 0)) = 50
      \<and> av_to (aa_percent (anim_data a ! 0)) = 33
      \<and> av_from (aa_filling (anim_data a ! 0)) = 1
      \<and> av_to (aa_filling (anim_data a ! 0)) = 1 / 2
      \<and> av_from (aa_percent (anim_data a ! 1)) = 50
      \<and> av_to (aa_percent (anim_data a ! 1)) = 67
      \<and> av_from (aa_opacity (anim_data a ! 1)) = 1
      \<and> av_to (aa_opacity (anim_data a ! 1)) = 1
      \<and> an_votesPercent (hp_answers s' ! 1) = 67)"
proof -
  let ?p = "poll_at 2 1 2 3 True False"
  have 1: "hp_pollVersion shown_voted \<noteq> poll_version ?p"
    by (simp add: shown_voted_def poll_at_def)
  have 2: "map an_option (hp_answers shown_voted) = map pa_option (poll_answers ?p)"
    by (simp add: shown_voted_def poll_at_def)
  have 3: "map an_votes (hp_answers shown_voted) \<noteq> map pa_votes (poll_answers ?p)"
    by (simp add: shown_voted_def poll_at_def)
  have 4: "hp_answersAnimation shown_voted = None"
    by (simp add: shown_voted_def)
  have 5: "poll_ok 10 ?p"
    by (simp add: poll_ok_eval)
  have alloc: "CountNicePercent sort_items 10 (map pa_votes (poll_answers ?p))
      (max 1 (poll_totalVoters ?p)) (replicate (length (poll_answers ?p)) 0) = Inr [33, 67]"
    by (simp add: poll_at_def allocator_eval)
  have alloc': "CountNicePercent sort_items 10 [1, 2] 3 [0, 0] = Inr [33, 67]"
    using alloc by (simp add: poll_at_def)
  from vote_change_starts_animation[OF 1 2 3 4 5, of sort_items]
  obtain s' a r where ut: "updateTexts sort_items 10 shown_voted ?p = Inr s'"
    and an: "hp_answersAnimation s' = Some a" "anim_progress a = Simple_start 0 1"
    and r: "CountNicePercent sort_items 10 (map pa_votes (poll_answers ?p))
           (max 1 (poll_totalVoters ?p)) (replicate (length (poll_answers ?p)) 0) = Inr r"
    and entries: "\<forall>i<length (hp_answers shown_voted).
           av_from (aa_percent (anim_data a ! i))
             = (if canVote shown_voted then 0 else real_of_int (an_votesPercent (hp_answers shown_voted ! i)))
           \<and> av_from (aa_filling (anim_data a ! i))
             = (if canVote shown_voted then 0 else an_filling (hp_answers shown_voted ! i))
           \<and> av_from (aa_opacity (anim_data a ! i)) = (if canVote shown_voted then 0 else 1)
           \<and> av_to (aa_percent (anim_data a ! i))
             = (if \<not> poll_voted ?p \<and> \<not> poll_closed ?p then 0 else real_of_int (r ! i))
           \<and> av_to (aa_filling (anim_data a ! i))
             = (if \<not> poll_voted ?p \<and> \<not> poll_closed ?p then 0
                else real_of_int (pa_votes (poll_answers ?p ! i))
                     / real_of_int (max 1 (Max (set (map pa_votes (poll_answers ?p))))))
           \<and> av_to (aa_opacity (anim_data a ! i))
             = (if \<not> poll_voted ?p \<and> \<not> poll_closed ?p then 0 else 1)
           \<and> an_votesPercent (hp_answers s' ! i)
             = (if \<not> poll_voted ?p \<and> \<not> poll_closed ?p then 0 else r ! i)"
    by blast
  from r alloc have r': "r = [33, 67]" by simp
  have c: "\<not> canVote shown_voted" by (simp add: canVote_def shown_voted_def)
  have l: "0 < length (hp_answers shown_voted)" "1 < length (hp_answers shown_voted)"
    by (simp_all add: shown_voted_def)
  have p: "an_votesPercent (hp_answers shown_voted ! 0) = 50"
    "an_votesPercent (hp_answers shown_voted ! 1) = 50"
    "an_filling (hp_answers shown_voted ! 0) = 1"
    by (simp_all add: shown_voted_def)
  from entries l(1) have e0: "av_from (aa_percent (anim_data a ! 0)) = 50
      \<and> av_to (aa_percent (anim_data a ! 0)) = 33
      \<and> av_from (aa_filling (anim_data a ! 0)) = 1
      \<and> av_to (aa_filling (anim_data a ! 0)) = 1 / 2"
    using c p by (simp add: r' poll_at_def)
  from entries l(2) have e1: "av_from (aa_percent (anim_data a ! 1)) = 50
      \<and> av_to (aa_percent (anim_data a ! 1)) = 67
      \<and> av_from (aa_opacity (anim_data a ! 1)) = 1
      \<and> av_to (aa_opacity (anim_data a ! 1)) = 1
      \<and> an_votesPercent (hp_answers s' ! 1) = 67"
    using c p by (simp add: r' poll_at_def)
  from ut an e0 e1 have "\<exists>s' a. updateTexts sort_items 10 shown_voted ?p = Inr s'
      \<and> hp_answersAnimation s' = Some a
      \<and> anim_progress a = Simple_start 0 1
      \<and> av_from (aa_percent (anim_data a ! 0)) = 50
      \<and> av_to (aa_percent (anim_data a ! 0)) = 33
      \<and> av_from (aa_filling (anim_data a ! 0)) = 1
      \<and> av_to (aa_filling (anim_data a ! 0)) = 1 / 2
      \<and> av_from (aa_percent (anim_data a ! 1)) = 50
      \<and> av_to (aa_percent (anim_data a ! 1)) = 67
      \<and> av_from (aa_opacity (anim_data a ! 1)) = 1
      \<and> av_to (aa_opacity (anim_data a ! 1)) = 1
      \<and> an_votesPercent (hp_answers s' ! 1) = 67"
    by blast
  with 1 2 3 4 5 alloc' show ?thesis by blast
qed

text \<open>
  C5. If the number of options in the new poll data differs from the number of stored
  options, the update triggers no animation: \<open>checkAnimationStart\<close> returns false and
  creates no object, the update pass returns (no error) with no animation object, an
  animation in flight being discarded, and the answer list is rebuilt from the poll data
  with the new votes, fillings and percents applied directly. The poll data is assumed
  well-formed for the allocator (\<open>poll_ok\<close>).
\<close>

theorem size_change_bypasses_animation:
  assumes ver: "hp_pollVersion s \<noteq> poll_version poll"
    and len: "length (poll_answers poll) \<noteq> length (hp_answers s)"
    and ok: "poll_ok kMaxOptions poll"
  shows "checkAnimationStart (s\<lparr>hp_pollVersion := poll_version poll\<rparr>) poll
           = (False, s\<lparr>hp_pollVersion := poll_version poll\<rparr>)
      \<and> (\<exists>s' r. updateTexts srt kMaxOptions s poll = Inr s'
           \<and> hp_answersAnimation s' = None
           \<and> hp_voted s' = poll_voted poll
           \<and> hp_closed s' = poll_closed poll
           \<and> hp_totalVotes s' = poll_totalVoters poll
           \<and> length (hp_answers s') = length (poll_answers poll)
           \<and> (poll_answers poll \<noteq> [] \<longrightarrow>
                CountNicePercent srt kMaxOptions (map pa_votes (poll_answers poll))
                  (max 1 (poll_totalVoters poll)) (replicate (length (poll_answers poll)) 0) = Inr r)
           \<and> (\<forall>i<length (poll_answers poll).
                an_option (hp_answers s' ! i) = pa_option (poll_answers poll ! i)
                \<and> an_votes (hp_answers s' ! i) = pa_votes (poll_answers poll ! i)
                \<and> an_filling (hp_answers s' ! i)
                    = real_of_int (pa_votes (poll_answers poll ! i))
                      / real_of_int (max 1 (Max (set (map pa_votes (poll_answers poll)))))
                \<and> an_votesPercent (hp_answers s' ! i) = (if canVote s' then 0 else r ! i)))"
proof -
  let ?s1 = "s\<lparr>hp_pollVersion := poll_version poll\<rparr>"
  have chk: "checkAnimationStart ?s1 poll = (False, ?s1)"
    using len by (simp add: checkAnimationStart_mismatch)
  define s4 where "s4 = header_refreshed ?s1 poll"
  have s4: "hp_answers s4 = hp_answers s" "hp_closed s4 = poll_closed poll"
    by (simp_all add: s4_def header_refreshed_frame)
  define fresh where "fresh = map (\<lambda>answer. fillText (Answer_default\<lparr>an_option := pa_option answer\<rparr>) answer)
    (poll_answers poll)"
  have "map an_option (hp_answers s4) \<noteq> map pa_option (poll_answers poll)"
    using len s4(1) by (metis length_map)
  then have s5_eq: "updateAnswers s4 poll = resetAnswersAnimation (s4\<lparr>hp_answers := fresh\<rparr>) poll"
    unfolding fresh_def by (rule updateAnswers_changed)
  define s5 where "s5 = updateAnswers s4 poll"
  have s5: "hp_answers s5 = fresh" "hp_answersAnimation s5 = None" "hp_closed s5 = poll_closed poll"
    by (simp_all add: s5_def s5_eq resetAnswersAnimation_frame s4)
  have lf: "length fresh = length (poll_answers poll)" by (simp add: fresh_def)
  have fo: "an_option (fresh ! i) = pa_option (poll_answers poll ! i)"
    if "i < length (poll_answers poll)" for i
    using that by (simp add: fresh_def fillText_fields)
  have len5: "length (poll_answers poll) = length (hp_answers s5)" by (simp add: s5 lf)
  from updateVotes_ok[OF ok len5, of srt] obtain s6 r where
    uv: "updateVotes srt kMaxOptions s5 poll = Inr s6"
    and r: "poll_answers poll \<noteq> [] \<longrightarrow>
           CountNicePercent srt kMaxOptions (map pa_votes (poll_answers poll))
             (max 1 (poll_totalVoters poll)) (replicate (length (poll_answers poll)) 0) = Inr r"
    and s6: "hp_voted s6 = poll_voted poll" "hp_closed s6 = hp_closed s5"
      "hp_answersAnimation s6 = hp_answersAnimation s5" "hp_totalVotes s6 = poll_totalVoters poll"
      "length (hp_answers s6) = length (hp_answers s5)"
    and s6_nth: "\<forall>i<length (hp_answers s5).
           an_option (hp_answers s6 ! i) = an_option (hp_answers s5 ! i)
           \<and> an_votes (hp_answers s6 ! i) = pa_votes (poll_answers poll ! i)
           \<and> an_filling (hp_answers s6 ! i)
               = real_of_int (pa_votes (poll_answers poll ! i))
                 / real_of_int (max 1 (Max (set (map pa_votes (poll_answers poll)))))
           \<and> an_votesPercent (hp_answers s6 ! i)
               = (if \<not> poll_voted poll \<and> \<not> hp_closed s5 then 0 else r ! i)"
    by blast
  have ut: "updateTexts srt kMaxOptions s poll = Inr s6"
    unfolding updateTexts_steps[OF ver] chk
    by (simp add: s4_def[symmetric] s5_def[symmetric] uv)
  have can6: "canVote s6 = (\<not> poll_voted poll \<and> \<not> poll_closed poll)"
    by (simp add: canVote_def s6 s5)
  have entries: "\<forall>i<length (poll_answers poll).
                an_option (hp_answers s6 ! i) = pa_option (poll_answers poll ! i)
                \<and> an_votes (hp_answers s6 ! i) = pa_votes (poll_answers poll ! i)
                \<and> an_filling (hp_answers s6 ! i)
                    = real_of_int (pa_votes (poll_answers poll ! i))
                      / real_of_int (max 1 (Max (set (map pa_votes (poll_answers poll)))))
                \<and> an_votesPercent (hp_answers s6 ! i) = (if canVote s6 then 0 else r ! i)"
    using s6_nth fo by (simp add: s5 lf can6)
  have "\<exists>s' r. updateTexts srt kMaxOptions s poll = Inr s'
           \<and> hp_answersAnimation s' = None
           \<and> hp_voted s' = poll_voted poll
           \<and> hp_closed s' = poll_closed poll
           \<and> hp_totalVotes s' = poll_totalVoters poll
           \<and> length (hp_answers s') = length (poll_answers poll)
           \<and> (poll_answers poll \<noteq> [] \<longrightarrow>
                CountNicePercent srt kMaxOptions (map pa_votes (poll_answers poll))
                  (max 1 (poll_totalVoters poll)) (replicate (length (poll_answers poll)) 0) = Inr r)
           \<and> (\<forall>i<length (poll_answers poll).
                an_option (hp_answers s' ! i) = pa_option (poll_answers poll ! i)
                \<and> an_votes (hp_answers s' ! i) = pa_votes (poll_answers poll ! i)
                \<and> an_filling (hp_answers s' ! i)
                    = real_of_int (pa_votes (poll_answers poll ! i))
                      / real_of_int (max 1 (Max (set (map pa_votes (poll_answers poll)))))
                \<and> an_votesPercent (hp_answers s' ! i) = (if canVote s' then 0 else r ! i))"
    apply (intro exI[of _ s6] exI[of _ r] conjI)
           apply (rule ut)
          apply (simp add: s6 s5)
         apply (rule s6(1))
        apply (simp add: s6 s5)
       apply (rule s6(4))
      apply (simp add: s6 s5 lf)
     apply (rule r)
    apply (rule entries)
    done
  with chk show ?thesis by blast
qed

theorem size_change_bypasses_animation_witness:
  "hp_pollVersion retracting \<noteq> poll_version poll_single \<and>
   length (poll_answers poll_single) \<noteq> length (hp_answers retracting) \<and>
   poll_ok 10 poll_single \<and>
   hp_answersAnimation retracting \<noteq> None \<and>
   (\<exists>s'. updateTexts sort_items 10 retracting poll_single = Inr s'
      \<and> hp_answersAnimation s' = None
      \<and> length (hp_answers s') = 1
      \<and> an_votes (hp_answers s' ! 0) = 1)"
proof -
  have 1: "hp_pollVersion retracting \<noteq> poll_version poll_single"
    by (simp add: retracting_def poll_single_def)
  have 2: "length (poll_answers poll_single) \<noteq> length (hp_answers retracting)"
    by (simp add: retracting_def poll_single_def)
  have 3: "poll_ok 10 poll_single"
    by (simp add: poll_ok_def poll_single_def INT_MAX_def INT_MIN_def)
  have 4: "hp_answersAnimation retracting \<noteq> None" by (simp add: retracting_def)
  from size_change_bypasses_animation[OF 1 2 3, of sort_items]
  obtain s' where ut: "updateTexts sort_items 10 retracting poll_single = Inr s'"
    and "hp_answersAnimation s' = None"
    and "length (hp_answers s') = length (poll_answers poll_single)"
    and "\<forall>i<length (poll_answers poll_single).
           an_votes (hp_answers s' ! i) = pa_votes (poll_answers poll_single ! i)"
    by blast
  then have "updateTexts sort_items 10 retracting poll_single = Inr s'
      \<and> hp_answersAnimation s' = None
      \<and> length (hp_answers s') = 1
      \<and> an_votes (hp_answers s' ! 0) = 1"
    by (simp add: poll_single_def)
  with 1 2 3 4 show ?thesis by blast
qed




text \<open>
  C7. In every state that a poll view reaches by update passes and painted frames, an
  answers animation that exists has exactly as many entries as there are stored answers,
  so the per-frame read of \<open>draw\<close>, which pairs answers and entries by index, never
  reads a missing entry.
\<close>

theorem animation_entries_match_answers:
  assumes "reachable srt kMaxOptions s"
  shows "(\<forall>a. hp_answersAnimation s = Some a \<longrightarrow> length (anim_data a) = length (hp_answers s))
      \<and> draw s poll wide now \<noteq> Inl IndexOutOfRange"
proof -
  have "animation_fits s" using assms by (rule reachable_fits)
  then show ?thesis by (simp add: animation_fits_iff draw_in_range)
qed

theorem animation_entries_match_answers_witness:
  "reachable sort_items 10 retracting \<and>
   hp_answersAnimation retracting \<noteq> None \<and>
   length (anim_data (the (hp_answersAnimation retracting))) = length (hp_answers retracting) \<and>
   draw retracting (poll_at 2 0 1 1 False False) True (1 / 2) \<noteq> Inl IndexOutOfRange"
proof -
  have "reachable sort_items 10 view_created"
    by (rule reachable.created) (simp add: view_created_def)
  then have "reachable sort_items 10 shown_voted"
    using view_created_to_shown_voted by (rule reachable.updated)
  then have r: "reachable sort_items 10 retracting"
    using shown_voted_to_retracting by (rule reachable.updated)
  have n: "hp_answersAnimation retracting \<noteq> None" by (simp add: retracting_def)
  from animation_entries_match_answers[OF r, of "poll_at 2 0 1 1 False False" True "1 / 2"] n
  have "length (anim_data (the (hp_answersAnimation retracting))) = length (hp_answers retracting)"
    and "draw retracting (poll_at 2 0 1 1 False False) True (1 / 2) \<noteq> Inl IndexOutOfRange"
    by auto
  with r n show ?thesis by blast
qed

end
